theory Spec2Isabelle
  imports Complex_Main
begin

section \<open>The metronome of \<open>src/app/components/Metronome.tsx\<close>\<close>

text \<open>
  The component is a React function component. Its \<open>useState\<close> cells and \<open>useRef\<close>
  cells are the fields of one record; the browser's timer table, the pending animation
  frame and the audio context (clock and created oscillators) are fields of the same
  record, so that every effect of the source is a state transformation.

  JavaScript numbers that hold times, tempi and volumes are modelled as exact reals
  (no rounding, no \<open>Infinity\<close>); the beat cursor, which the source computes with
  \<open>%\<close>, keeps the value \<open>NaN\<close> that \<open>% 0\<close> yields. The one division whose divisor
  can be 0 in a run of the component, the mean interval of \<open>handleTap\<close>, is written
  out. \<open>60 / bpm\<close> is \<open>Infinity\<close> in the source for a tempo of 0, which no handler
  sets from a tap or from a value of the slider's range; the properties below that run
  the scheduler assume a positive tempo.

  Handlers run to completion: a click, a slider input, a timeout and an animation frame
  are separate tasks of one event loop, and React runs the effects of the render that a
  click or an input triggers before the next task.
\<close>

subsection \<open>Data\<close>

text \<open>\<open>type BeatType = 0 | 1 | 2\<close>: 0 is \<open>Mute\<close>, 1 is \<open>Normal\<close>, 2 is \<open>Accent\<close>.\<close>

datatype BeatType = Mute | Normal | Accent

text \<open>A beat index as a JavaScript number: a natural number, or \<open>NaN\<close>.\<close>

datatype index = Idx nat | NaN

record ScheduledNote =
  time :: real
  beatIndex :: index

text \<open>
  What \<open>scheduleNote\<close> builds for one click: an oscillator connected through a gain
  envelope to the destination, started and stopped on the audio clock.
\<close>

record Oscillator =
  frequency :: real
  gain :: real
  rampTarget :: real
  rampEnd :: real
  startTime :: real
  stopTime :: real

record AudioContext =
  currentTime :: real
  suspended :: bool
  oscillators :: "Oscillator list"

text \<open>
  The values a render closes over and that \<open>scheduler\<close> (through \<open>nextNote\<close> and
  \<open>scheduleNote\<close>) reads from its closure rather than from a ref: the dependency list
  of its \<open>useCallback\<close> is \<open>[bpm, isMuted]\<close>.
\<close>

record closure =
  c_bpm :: real
  c_isMuted :: bool

record metronome =
  isPlaying :: bool
  bpm :: real
  isMuted :: bool
  beatPattern :: "BeatType list"
  beatPatternRef :: "BeatType list"
  activeBeatIndex :: "index option"
  audioContextRef :: "AudioContext option"
  nextNoteTimeRef :: real
  currentBeatIndexRef :: index
  timerIDRef :: "nat option"
  notesQueue :: "ScheduledNote list"
  tapTimesRef :: "real list"
  lastTapRef :: real
  volume :: real
  volumeRef :: real
  timers :: "(nat \<times> closure) list"
  nextTimerId :: nat
  rafPending :: bool

text \<open>
  \<open>activeBeatIndex\<close> is \<open>None\<close> for the source's \<open>-1\<close>. \<open>timers\<close> is the browser's
  table of pending timeouts (identifier and the closure of the callback, oldest first),
  \<open>nextTimerId\<close> the next identifier \<open>setTimeout\<close> hands out (identifiers are
  positive), \<open>rafPending\<close> whether a frame request for \<open>draw\<close> is pending.
\<close>

definition lookahead :: real where
  "lookahead = 25"

definition scheduleAheadTime :: real where
  "scheduleAheadTime = 1 / 10"

definition initial :: metronome where
  "initial = \<lparr> isPlaying = False, bpm = 120, isMuted = False,
     beatPattern = [Accent, Normal, Normal, Normal],
     beatPatternRef = [Accent, Normal, Normal, Normal],
     activeBeatIndex = None, audioContextRef = None,
     nextNoteTimeRef = 0, currentBeatIndexRef = Idx 0, timerIDRef = None,
     notesQueue = [], tapTimesRef = [], lastTapRef = 0,
     volume = 7 / 10, volumeRef = 7 / 10,
     timers = [], nextTimerId = 1, rafPending = False \<rparr>"

subsection \<open>JavaScript number and array operations on the beat cursor\<close>

text \<open>\<open>i + 1\<close>, \<open>i % n\<close>, \<open>i >= n\<close> and \<open>pattern[i]\<close> (\<open>None\<close> is \<open>undefined\<close>).\<close>

fun index_succ :: "index \<Rightarrow> index" where
  "index_succ (Idx i) = Idx (i + 1)"
| "index_succ NaN = NaN"

fun index_mod :: "index \<Rightarrow> nat \<Rightarrow> index" where
  "index_mod (Idx i) n = (if n = 0 then NaN else Idx (i mod n))"
| "index_mod NaN n = NaN"

fun index_ge :: "index \<Rightarrow> nat \<Rightarrow> bool" where
  "index_ge (Idx i) n = (n \<le> i)"
| "index_ge NaN n = False"

fun js_nth :: "'a list \<Rightarrow> index \<Rightarrow> 'a option" where
  "js_nth xs (Idx i) = (if i < length xs then Some (xs ! i) else None)"
| "js_nth xs NaN = None"

subsection \<open>The scheduler\<close>

definition closure_of :: "metronome \<Rightarrow> closure" where
  "closure_of s = \<lparr> c_bpm = bpm s, c_isMuted = isMuted s \<rparr>"

definition scheduleNote :: "closure \<Rightarrow> real \<Rightarrow> index \<Rightarrow> metronome \<Rightarrow> metronome" where
  "scheduleNote c t bi s =
    (let s1 = s\<lparr> notesQueue := notesQueue s @ [\<lparr> time = t, beatIndex = bi \<rparr>] \<rparr> in
     if c_isMuted c then s1
     else case audioContextRef s1 of
       None \<Rightarrow> s1
     | Some ctx \<Rightarrow>
        (let pattern = beatPatternRef s1 in
         if index_ge bi (length pattern) then s1
         else
          (let type = js_nth pattern bi in
           if type = Some Mute then s1
           else
            (let osc = \<lparr> frequency = (if type = Some Accent then 1000 else 800),
                         gain = (if type = Some Accent then 1 else 6 / 10) * volumeRef s1,
                         rampTarget = 1 / 1000,
                         rampEnd = t + 5 / 100,
                         startTime = t,
                         stopTime = t + 5 / 100 \<rparr>
             in s1\<lparr> audioContextRef :=
                      Some (ctx\<lparr> oscillators := oscillators ctx @ [osc] \<rparr>) \<rparr>))))"

definition secondsPerBeat :: "closure \<Rightarrow> real" where
  "secondsPerBeat c = 60 / c_bpm c"

definition nextNote :: "closure \<Rightarrow> metronome \<Rightarrow> metronome" where
  "nextNote c s =
     s\<lparr> nextNoteTimeRef := nextNoteTimeRef s + secondsPerBeat c,
        currentBeatIndexRef :=
          index_mod (index_succ (currentBeatIndexRef s)) (length (beatPatternRef s)) \<rparr>"

text \<open>One iteration of the \<open>while\<close> loop of \<open>scheduler\<close>.\<close>

definition loop_body :: "closure \<Rightarrow> metronome \<Rightarrow> metronome" where
  "loop_body c s =
     nextNote c (scheduleNote c (nextNoteTimeRef s) (currentBeatIndexRef s) s)"

text \<open>
  The loop's condition reads \<open>audioContextRef.current.currentTime\<close>; \<open>scheduler\<close> has
  checked the context before the loop and nothing in the loop removes it.
\<close>

definition loop_cond :: "metronome \<Rightarrow> bool" where
  "loop_cond s =
     (case audioContextRef s of
        None \<Rightarrow> False
      | Some ctx \<Rightarrow> nextNoteTimeRef s < currentTime ctx + scheduleAheadTime)"

text \<open>
  The loop does not return when the cursor never reaches the end of the window (a
  tempo that is not positive): its result is then \<open>None\<close>.
\<close>

partial_function (option) scheduler_loop :: "closure \<Rightarrow> metronome \<Rightarrow> metronome option" where
  "scheduler_loop c s =
     (if loop_cond s then scheduler_loop c (loop_body c s) else Some s)"

definition setTimeout :: "closure \<Rightarrow> metronome \<Rightarrow> metronome" where
  "setTimeout c s =
     s\<lparr> timers := timers s @ [(nextTimerId s, c)],
        timerIDRef := Some (nextTimerId s),
        nextTimerId := nextTimerId s + 1 \<rparr>"

definition clearTimeout :: "nat \<Rightarrow> metronome \<Rightarrow> metronome" where
  "clearTimeout i s = s\<lparr> timers := filter (\<lambda>(j, c). j \<noteq> i) (timers s) \<rparr>"

definition scheduler :: "closure \<Rightarrow> metronome \<Rightarrow> metronome option" where
  "scheduler c s =
     (case audioContextRef s of
        None \<Rightarrow> Some s
      | Some ctx \<Rightarrow>
         (case scheduler_loop c s of
            None \<Rightarrow> None
          | Some s' \<Rightarrow> Some (setTimeout c s')))"

subsection \<open>The visualizer loop\<close>

text \<open>
  \<open>draw\<close> is the callback of \<open>requestAnimationFrame\<close>: it runs when a requested frame
  is due, removes from the queue every leading note whose time has passed, makes the
  last of them the active beat, and requests the next frame. \<open>visualEffect\<close> and
  \<open>visualCleanup\<close> are the body and the cleanup of the effect that starts the loop.
\<close>

fun drain :: "real \<Rightarrow> ScheduledNote list \<Rightarrow> index option \<Rightarrow> ScheduledNote list \<times> index option" where
  "drain now [] a = ([], a)"
| "drain now (n # q) a =
     (if time n < now then drain now q (Some (beatIndex n)) else (n # q, a))"

definition draw :: "metronome \<Rightarrow> metronome" where
  "draw s =
     (if \<not> rafPending s then s
      else case audioContextRef s of
        None \<Rightarrow> s\<lparr> rafPending := False \<rparr>
      | Some ctx \<Rightarrow>
         (case drain (currentTime ctx) (notesQueue s) (activeBeatIndex s) of
            (q, a) \<Rightarrow> s\<lparr> notesQueue := q, activeBeatIndex := a, rafPending := True \<rparr>))"

definition visualEffect :: "metronome \<Rightarrow> metronome" where
  "visualEffect s =
     (if isPlaying s then s\<lparr> rafPending := True \<rparr> else s\<lparr> activeBeatIndex := None \<rparr>)"

definition visualCleanup :: "metronome \<Rightarrow> metronome" where
  "visualCleanup s = s\<lparr> rafPending := False \<rparr>"

subsection \<open>The audio lifecycle effect\<close>

text \<open>\<open>if (timerIDRef.current) window.clearTimeout(timerIDRef.current)\<close>: 0 is falsy.\<close>

definition clearTimer :: "metronome \<Rightarrow> metronome" where
  "clearTimer s =
     (case timerIDRef s of
        None \<Rightarrow> s
      | Some i \<Rightarrow> if i = 0 then s else clearTimeout i s)"

definition newAudioContext :: AudioContext where
  "newAudioContext = \<lparr> currentTime = 0, suspended = False, oscillators = [] \<rparr>"

definition audioEffect :: "metronome \<Rightarrow> metronome option" where
  "audioEffect s =
     (if isPlaying s then
        (let ctx0 = (case audioContextRef s of None \<Rightarrow> newAudioContext | Some ctx \<Rightarrow> ctx);
             ctx = (if suspended ctx0 then ctx0\<lparr> suspended := False \<rparr> else ctx0)
         in scheduler (closure_of s)
              (s\<lparr> audioContextRef := Some ctx,
                  currentBeatIndexRef := Idx 0,
                  nextNoteTimeRef := currentTime ctx + 5 / 100 \<rparr>))
      else Some (clearTimer s))"

definition audioCleanup :: "metronome \<Rightarrow> metronome" where
  "audioCleanup s = clearTimer s"

subsection \<open>State setters and event handlers\<close>

text \<open>
  A state setter re-renders the component when the value changes. The render that
  follows creates a new \<open>scheduler\<close> exactly when \<open>bpm\<close> or \<open>isMuted\<close> changed, and
  React then runs the cleanups, in the order of the source, and then the bodies of the
  effects one of whose dependencies changed: the visualizer effect depends on
  \<open>[isPlaying]\<close>, the audio lifecycle effect on \<open>[isPlaying, scheduler]\<close>, the ref
  synchronisations on \<open>[beatPattern]\<close> and \<open>[volume]\<close>. The \<open>scheduler\<close> that the audio
  lifecycle effect calls, and that re-arms itself, closes over the \<open>bpm\<close> and \<open>isMuted\<close>
  of that render.
\<close>

definition setBpm :: "real \<Rightarrow> metronome \<Rightarrow> metronome option" where
  "setBpm v s = (if v = bpm s then Some s else audioEffect (audioCleanup (s\<lparr> bpm := v \<rparr>)))"

definition setIsMuted :: "bool \<Rightarrow> metronome \<Rightarrow> metronome option" where
  "setIsMuted b s =
     (if b = isMuted s then Some s else audioEffect (audioCleanup (s\<lparr> isMuted := b \<rparr>)))"

definition setIsPlaying :: "bool \<Rightarrow> metronome \<Rightarrow> metronome option" where
  "setIsPlaying b s =
     (if b = isPlaying s then Some s
      else audioEffect (visualEffect (audioCleanup (visualCleanup (s\<lparr> isPlaying := b \<rparr>)))))"

text \<open>The handlers always pass a fresh array, so the pattern effect always runs.\<close>

definition setBeatPattern :: "BeatType list \<Rightarrow> metronome \<Rightarrow> metronome" where
  "setBeatPattern p s = s\<lparr> beatPattern := p, beatPatternRef := p \<rparr>"

definition setVolume :: "real \<Rightarrow> metronome \<Rightarrow> metronome" where
  "setVolume v s = s\<lparr> volume := v, volumeRef := v \<rparr>"

fun cycle :: "BeatType \<Rightarrow> BeatType" where
  "cycle Normal = Accent"
| "cycle Accent = Mute"
| "cycle Mute = Normal"

text \<open>
  \<open>handleBeatClick\<close> is called with the index of a rendered slot only (the buttons are
  \<open>beatPattern.map\<close>). For any other index JavaScript would extend the array with
  holes, which are not values of \<open>BeatType[]\<close>; there is no such button, and the model
  leaves the state as it is.
\<close>

definition handleBeatClick :: "nat \<Rightarrow> metronome \<Rightarrow> metronome" where
  "handleBeatClick i s =
     (let newPattern = beatPattern s in
      if i < length newPattern
      then setBeatPattern (newPattern[i := cycle (newPattern ! i)]) s
      else s)"

definition changeTimeSignature :: "int \<Rightarrow> metronome \<Rightarrow> metronome" where
  "changeTimeSignature delta s =
     (let p = beatPattern s;
          newPattern =
            (if delta > 0 then (if length p < 12 then p @ [Normal] else p)
             else (if length p > 1 then butlast p else p));
          s1 = setBeatPattern newPattern s
      in if index_ge (currentBeatIndexRef s1) (length newPattern)
         then s1\<lparr> currentBeatIndexRef := Idx 0 \<rparr> else s1)"

text \<open>
  \<open>handleTap\<close>, with the value of \<open>performance.now()\<close> as argument. \<open>intervals\<close> is not
  empty where it is reduced; a mean of 0 gives \<open>Infinity\<close>, which fails \<open><= 300\<close>.
\<close>

definition tapIntervals :: "real list \<Rightarrow> real list" where
  "tapIntervals ts = map (\<lambda>(t, p). t - p) (zip (tl ts) ts)"

definition handleTap :: "real \<Rightarrow> metronome \<Rightarrow> metronome option" where
  "handleTap now s =
     (let lastTap = lastTapRef s;
          taps = (if now - lastTap > 2000 then [now]
                  else (let pushed = tapTimesRef s @ [now]
                        in if length pushed > 4 then tl pushed else pushed));
          s1 = s\<lparr> tapTimesRef := taps, lastTapRef := now \<rparr>
      in if length taps > 1 then
           (let intervals = tapIntervals taps;
                avg = foldl (+) (hd intervals) (tl intervals) / real (length intervals)
            in if avg = 0 then Some s1
               else (let newBpm = round (60000 / avg)
                     in if newBpm \<ge> 30 \<and> newBpm \<le> 300
                        then setBpm (of_int newBpm) s1 else Some s1))
         else Some s1)"

subsection \<open>Events\<close>

text \<open>
  What the browser delivers to the component: clicks, slider input, a timeout firing
  (timeouts all have the delay \<open>lookahead\<close>, so the oldest pending one fires), an
  animation frame, and the audio clock advancing.
\<close>

datatype event =
    ClickPlay
  | ClickMute
  | SliderChange real
  | VolumeChange real
  | Tap real
  | BeatClick nat
  | TimeSignature int
  | TimerFire
  | AnimationFrame
  | ClockAdvance real

definition timerFire :: "metronome \<Rightarrow> metronome option" where
  "timerFire s =
     (case timers s of
        [] \<Rightarrow> Some s
      | (i, c) # rest \<Rightarrow> scheduler c (s\<lparr> timers := rest \<rparr>))"

definition clockAdvance :: "real \<Rightarrow> metronome \<Rightarrow> metronome" where
  "clockAdvance dt s =
     (case audioContextRef s of
        None \<Rightarrow> s
      | Some ctx \<Rightarrow> s\<lparr> audioContextRef := Some (ctx\<lparr> currentTime := currentTime ctx + dt \<rparr>) \<rparr>)"

fun step :: "event \<Rightarrow> metronome \<Rightarrow> metronome option" where
  "step ClickPlay s = setIsPlaying (\<not> isPlaying s) s"
| "step ClickMute s = setIsMuted (\<not> isMuted s) s"
| "step (SliderChange v) s = setBpm v s"
| "step (VolumeChange v) s = Some (setVolume v s)"
| "step (Tap now) s = handleTap now s"
| "step (BeatClick i) s = Some (handleBeatClick i s)"
| "step (TimeSignature delta) s = Some (changeTimeSignature delta s)"
| "step TimerFire s = timerFire s"
| "step AnimationFrame s = Some (draw s)"
| "step (ClockAdvance dt) s = Some (clockAdvance dt s)"

fun run :: "event list \<Rightarrow> metronome \<Rightarrow> metronome option" where
  "run [] s = Some s"
| "run (e # es) s = (case step e s of None \<Rightarrow> None | Some s' \<Rightarrow> run es s')"

subsection \<open>Notions used to state the properties\<close>

text \<open>
  The audio clock as the scheduler reads it (a context that does not exist yet starts
  at 0), one advance of the beat cursor, the notes that \<open>n\<close> iterations of the loop
  emit from the cursor \<open>(t0, i0)\<close>, and the relation between a state and the state \<open>n\<close>
  iterations later, whatever happened to the clock, the timers and the audio context's
  oscillators in between.
\<close>

definition clockNow :: "metronome \<Rightarrow> real" where
  "clockNow s = (case audioContextRef s of None \<Rightarrow> 0 | Some ctx \<Rightarrow> currentTime ctx)"

definition advance_index :: "nat \<Rightarrow> index \<Rightarrow> index" where
  "advance_index L i = index_mod (index_succ i) L"

definition emitted :: "real \<Rightarrow> real \<Rightarrow> nat \<Rightarrow> index \<Rightarrow> nat \<Rightarrow> ScheduledNote list" where
  "emitted t0 spb L i0 n =
     map (\<lambda>k. \<lparr> time = t0 + real k * spb, beatIndex = (advance_index L ^^ k) i0 \<rparr>) [0..<n]"

definition same_controls :: "metronome \<Rightarrow> metronome \<Rightarrow> bool" where
  "same_controls s s' \<longleftrightarrow>
     isPlaying s' = isPlaying s \<and> bpm s' = bpm s \<and> isMuted s' = isMuted s \<and>
     beatPattern s' = beatPattern s \<and> beatPatternRef s' = beatPatternRef s \<and>
     activeBeatIndex s' = activeBeatIndex s \<and> tapTimesRef s' = tapTimesRef s \<and>
     lastTapRef s' = lastTapRef s \<and> volume s' = volume s \<and> volumeRef s' = volumeRef s \<and>
     rafPending s' = rafPending s"

definition ran :: "closure \<Rightarrow> metronome \<Rightarrow> nat \<Rightarrow> metronome \<Rightarrow> bool" where
  "ran c s n s' \<longleftrightarrow>
     notesQueue s' = notesQueue s @
       emitted (nextNoteTimeRef s) (secondsPerBeat c) (length (beatPatternRef s)) (currentBeatIndexRef s) n \<and>
     nextNoteTimeRef s' = nextNoteTimeRef s + real n * (secondsPerBeat c) \<and>
     currentBeatIndexRef s' = (advance_index (length (beatPatternRef s)) ^^ n) (currentBeatIndexRef s) \<and>
     same_controls s s' \<and> (audioContextRef s' = None) = (audioContextRef s = None)"

subsection \<open>Runs\<close>

text \<open>
  A timer tick: the clock advances by \<open>dt\<close>, then the pending timeout fires. The events
  the browser can deliver: the range widget of the tempo slider has \<open>min="30"\<close> and
  \<open>max="240"\<close>, and the audio clock does not run backwards. \<open>startCursor\<close> is the state
  in which the audio lifecycle effect calls \<open>scheduler\<close>, \<open>prepared\<close> the state in which
  that effect runs after the play button.
\<close>

definition ticks :: "real list \<Rightarrow> event list" where
  "ticks dts = concat (map (\<lambda>dt. [ClockAdvance dt, TimerFire]) dts)"

definition valid_event :: "event \<Rightarrow> bool" where
  "valid_event e =
     (case e of SliderChange v \<Rightarrow> 30 \<le> v \<and> v \<le> 240
              | ClockAdvance dt \<Rightarrow> 0 \<le> dt
              | _ \<Rightarrow> True)"

definition startCursor :: "metronome \<Rightarrow> metronome" where
  "startCursor s =
     (let ctx0 = (case audioContextRef s of None \<Rightarrow> newAudioContext | Some ctx \<Rightarrow> ctx);
          ctx = (if suspended ctx0 then ctx0\<lparr> suspended := False \<rparr> else ctx0)
      in s\<lparr> audioContextRef := Some ctx,
            currentBeatIndexRef := Idx 0,
            nextNoteTimeRef := currentTime ctx + 5 / 100 \<rparr>)"

definition prepared :: "metronome \<Rightarrow> metronome" where
  "prepared s = visualEffect (audioCleanup (visualCleanup (s\<lparr> isPlaying := True \<rparr>)))"

subsection \<open>Tap tempo, as the specification words it\<close>

text \<open>
  The taps retained after a tap, the mean interval between retained taps, and the
  estimate \<open>round (60000 / mean)\<close>.
\<close>

definition tapWindow :: "real \<Rightarrow> metronome \<Rightarrow> real list" where
  "tapWindow now s =
     (if now - lastTapRef s > 2000 then [now]
      else if length (tapTimesRef s @ [now]) > 4 then tl (tapTimesRef s @ [now])
      else tapTimesRef s @ [now])"

definition tapMean :: "real list \<Rightarrow> real" where
  "tapMean ts = sum_list (tapIntervals ts) / real (length (tapIntervals ts))"

definition tapEstimate :: "real list \<Rightarrow> int" where
  "tapEstimate ts = round (60000 / tapMean ts)"

subsection \<open>Invariants\<close>

text \<open>
  At most one timeout is pending, and it is the one \<open>timerIDRef\<close> names, with the
  closure of the current render; queued onsets are inside the schedule-ahead window;
  during playback the cursor is less than one beat beyond that window; the pattern has
  1 to 12 slots, the ref agrees with the state, and the cursor index is in bounds.
\<close>

definition timers_ok :: "metronome \<Rightarrow> bool" where
  "timers_ok s \<longleftrightarrow> 0 < nextTimerId s \<and>
     (case timers s of
        [] \<Rightarrow> True
      | (i, c) # rest \<Rightarrow> rest = [] \<and> 0 < i \<and> timerIDRef s = Some i \<and> c = closure_of s)"

definition queue_ok :: "metronome \<Rightarrow> bool" where
  "queue_ok s \<longleftrightarrow> list_all (\<lambda>n. time n < clockNow s + scheduleAheadTime) (notesQueue s)"

definition cursor_ok :: "metronome \<Rightarrow> bool" where
  "cursor_ok s \<longleftrightarrow> audioContextRef s \<noteq> None \<and>
     nextNoteTimeRef s < clockNow s + scheduleAheadTime + 60 / bpm s"

definition sched_inv :: "metronome \<Rightarrow> bool" where
  "sched_inv s \<longleftrightarrow> 30 \<le> bpm s \<and> bpm s \<le> 300 \<and> timers_ok s \<and> queue_ok s \<and>
     (isPlaying s \<longrightarrow> cursor_ok s)"

definition bounds_ok :: "metronome \<Rightarrow> bool" where
  "bounds_ok s \<longleftrightarrow> beatPatternRef s = beatPattern s \<and> beatPattern s \<noteq> [] \<and>
     length (beatPattern s) \<le> 12 \<and>
     (case currentBeatIndexRef s of Idx i \<Rightarrow> i < length (beatPatternRef s) | NaN \<Rightarrow> False)"

subsection \<open>Example states\<close>

text \<open>
  \<open>started\<close> is the initial state after the play button, \<open>ticked\<close> the same half a
  second and one timer tick later; \<open>shrunk\<close> has a cursor beyond a two-slot pattern;
  \<open>tapped\<close> is the initial state after one tap at 5000 ms.
\<close>

definition started :: metronome where
  "started = \<lparr> isPlaying = True, bpm = 120, isMuted = False,
     beatPattern = [Accent, Normal, Normal, Normal],
     beatPatternRef = [Accent, Normal, Normal, Normal],
     activeBeatIndex = None,
     audioContextRef = Some \<lparr> currentTime = 0, suspended = False,
       oscillators = [\<lparr> frequency = 1000, gain = 7 / 10, rampTarget = 1 / 1000,
                        rampEnd = 1 / 10, startTime = 1 / 20, stopTime = 1 / 10 \<rparr>] \<rparr>,
     nextNoteTimeRef = 11 / 20, currentBeatIndexRef = Idx 1, timerIDRef = Some 1,
     notesQueue = [\<lparr> time = 1 / 20, beatIndex = Idx 0 \<rparr>], tapTimesRef = [], lastTapRef = 0,
     volume = 7 / 10, volumeRef = 7 / 10,
     timers = [(1, \<lparr> c_bpm = 120, c_isMuted = False \<rparr>)], nextTimerId = 2, rafPending = True \<rparr>"

definition ticked :: metronome where
  "ticked = \<lparr> isPlaying = True, bpm = 120, isMuted = False,
     beatPattern = [Accent, Normal, Normal, Normal],
     beatPatternRef = [Accent, Normal, Normal, Normal],
     activeBeatIndex = None,
     audioContextRef = Some \<lparr> currentTime = 1 / 2, suspended = False,
       oscillators = [\<lparr> frequency = 1000, gain = 7 / 10, rampTarget = 1 / 1000,
                        rampEnd = 1 / 10, startTime = 1 / 20, stopTime = 1 / 10 \<rparr>,
                      \<lparr> frequency = 800, gain = 21 / 50, rampTarget = 1 / 1000,
                        rampEnd = 3 / 5, startTime = 11 / 20, stopTime = 3 / 5 \<rparr>] \<rparr>,
     nextNoteTimeRef = 21 / 20, currentBeatIndexRef = Idx 2, timerIDRef = Some 2,
     notesQueue = [\<lparr> time = 1 / 20, beatIndex = Idx 0 \<rparr>, \<lparr> time = 11 / 20, beatIndex = Idx 1 \<rparr>],
     tapTimesRef = [], lastTapRef = 0,
     volume = 7 / 10, volumeRef = 7 / 10,
     timers = [(2, \<lparr> c_bpm = 120, c_isMuted = False \<rparr>)], nextTimerId = 3, rafPending = True \<rparr>"

definition shrunk :: metronome where
  "shrunk = started\<lparr> beatPattern := [Accent, Normal], beatPatternRef := [Accent, Normal],
                     currentBeatIndexRef := Idx 3 \<rparr>"

definition tapped :: metronome where
  "tapped = initial\<lparr> tapTimesRef := [5000], lastTapRef := 5000 \<rparr>"

section \<open>Properties\<close>

subsection \<open>One iteration of the scheduling loop\<close>

text \<open>
  \<open>scheduleNote\<close> touches the visual queue and the audio context only, \<open>nextNote\<close> the
  cursor only; neither reads the clock.
\<close>

lemma scheduleNote_frame:
  "isPlaying (scheduleNote c t bi s) = isPlaying s"
  "bpm (scheduleNote c t bi s) = bpm s"
  "isMuted (scheduleNote c t bi s) = isMuted s"
  "beatPattern (scheduleNote c t bi s) = beatPattern s"
  "beatPatternRef (scheduleNote c t bi s) = beatPatternRef s"
  "activeBeatIndex (scheduleNote c t bi s) = activeBeatIndex s"
  "nextNoteTimeRef (scheduleNote c t bi s) = nextNoteTimeRef s"
  "currentBeatIndexRef (scheduleNote c t bi s) = currentBeatIndexRef s"
  "timerIDRef (scheduleNote c t bi s) = timerIDRef s"
  "tapTimesRef (scheduleNote c t bi s) = tapTimesRef s"
  "lastTapRef (scheduleNote c t bi s) = lastTapRef s"
  "volume (scheduleNote c t bi s) = volume s"
  "volumeRef (scheduleNote c t bi s) = volumeRef s"
  "timers (scheduleNote c t bi s) = timers s"
  "nextTimerId (scheduleNote c t bi s) = nextTimerId s"
  "rafPending (scheduleNote c t bi s) = rafPending s"
  by (simp_all add: scheduleNote_def Let_def split: option.splits)

lemma scheduleNote_queue:
  "notesQueue (scheduleNote c t bi s) = notesQueue s @ [\<lparr> time = t, beatIndex = bi \<rparr>]"
  by (simp add: scheduleNote_def Let_def split: option.splits)

lemma scheduleNote_clock:
  "clockNow (scheduleNote c t bi s) = clockNow s"
  "(audioContextRef (scheduleNote c t bi s) = None) = (audioContextRef s = None)"
  by (simp_all add: scheduleNote_def clockNow_def Let_def split: option.splits)

lemma nextNote_clock:
  "clockNow (nextNote c s) = clockNow s"
  "(audioContextRef (nextNote c s) = None) = (audioContextRef s = None)"
  by (simp_all add: nextNote_def clockNow_def Let_def)

lemma loop_body_frame:
  "isPlaying (loop_body c s) = isPlaying s"
  "bpm (loop_body c s) = bpm s"
  "isMuted (loop_body c s) = isMuted s"
  "beatPattern (loop_body c s) = beatPattern s"
  "beatPatternRef (loop_body c s) = beatPatternRef s"
  "activeBeatIndex (loop_body c s) = activeBeatIndex s"
  "timerIDRef (loop_body c s) = timerIDRef s"
  "tapTimesRef (loop_body c s) = tapTimesRef s"
  "lastTapRef (loop_body c s) = lastTapRef s"
  "volume (loop_body c s) = volume s"
  "volumeRef (loop_body c s) = volumeRef s"
  "timers (loop_body c s) = timers s"
  "nextTimerId (loop_body c s) = nextTimerId s"
  "rafPending (loop_body c s) = rafPending s"
  by (simp_all add: loop_body_def nextNote_def Let_def scheduleNote_frame)

lemma loop_body_clock:
  "clockNow (loop_body c s) = clockNow s"
  "(audioContextRef (loop_body c s) = None) = (audioContextRef s = None)"
  by (simp_all add: loop_body_def nextNote_clock scheduleNote_clock)

lemma loop_body_cursor:
  "nextNoteTimeRef (loop_body c s) = nextNoteTimeRef s + secondsPerBeat c"
  "currentBeatIndexRef (loop_body c s) = advance_index (length (beatPatternRef s)) (currentBeatIndexRef s)"
  "notesQueue (loop_body c s) = notesQueue s @ [\<lparr> time = nextNoteTimeRef s, beatIndex = currentBeatIndexRef s \<rparr>]"
  by (simp_all add: loop_body_def nextNote_def Let_def scheduleNote_frame scheduleNote_queue advance_index_def)

lemma loop_cond_iff:
  "loop_cond s \<longleftrightarrow> audioContextRef s \<noteq> None \<and> nextNoteTimeRef s < clockNow s + scheduleAheadTime"
  by (simp add: loop_cond_def clockNow_def split: option.splits)

lemma advance_index_funpow:
  assumes "0 < L" and "i < L"
  shows "(advance_index L ^^ k) (Idx i) = Idx ((i + k) mod L)"
  using assms by (induction k) (simp_all add: advance_index_def mod_Suc_eq)

subsection \<open>The notes of \<open>n\<close> iterations\<close>

text \<open>
  \<open>ran c s n s'\<close> composes: iterations add up, and a change of the clock or of the timer
  table in between counts as no iteration.
\<close>

lemma emitted_0 [simp]: "emitted t0 spb L i0 0 = []"
  by (simp add: emitted_def)

lemma emitted_Suc:
  "emitted t0 spb L i0 (Suc n) =
     emitted t0 spb L i0 n @ [\<lparr> time = t0 + real n * spb, beatIndex = (advance_index L ^^ n) i0 \<rparr>]"
  by (simp add: emitted_def)

lemma length_emitted [simp]: "length (emitted t0 spb L i0 n) = n"
  by (simp add: emitted_def)

lemma emitted_append:
  "emitted t0 spb L i0 n @ emitted (t0 + real n * spb) spb L ((advance_index L ^^ n) i0) m
     = emitted t0 spb L i0 (n + m)"
proof (induction m)
  case 0
  show ?case by simp
next
  case (Suc m)
  have "emitted t0 spb L i0 n @ emitted (t0 + real n * spb) spb L ((advance_index L ^^ n) i0) (Suc m)
      = emitted t0 spb L i0 (n + m) @
          [\<lparr> time = t0 + real n * spb + real m * spb,
             beatIndex = (advance_index L ^^ m) ((advance_index L ^^ n) i0) \<rparr>]"
    using Suc by (simp add: emitted_Suc)
  also have "\<dots> = emitted t0 spb L i0 (Suc (n + m))"
    by (simp add: emitted_Suc funpow_add algebra_simps add.commute[of n m])
  finally show ?case by simp
qed

lemma emitted_within:
  assumes "0 \<le> spb" and "0 < n \<longrightarrow> t0 + real n * spb < B + spb"
  shows "list_all (\<lambda>x. time x < B) (emitted t0 spb L i0 n)"
proof -
  have "t0 + real k * spb < B" if "k < n" for k
  proof -
    from that have "real k \<le> real n - 1" by simp
    then have "real k * spb \<le> (real n - 1) * spb"
      using assms(1) by (rule mult_right_mono)
    moreover have "t0 + (real n - 1) * spb < B"
      using assms(2) that by (simp add: algebra_simps)
    ultimately show ?thesis by simp
  qed
  then show ?thesis by (simp add: emitted_def list_all_iff)
qed

lemma emitted_5:
  "emitted t0 (1 / 2) 4 (Idx 0) 5 =
     [\<lparr> time = t0, beatIndex = Idx 0 \<rparr>, \<lparr> time = t0 + 1 / 2, beatIndex = Idx 1 \<rparr>,
      \<lparr> time = t0 + 1, beatIndex = Idx 2 \<rparr>, \<lparr> time = t0 + 3 / 2, beatIndex = Idx 3 \<rparr>,
      \<lparr> time = t0 + 2, beatIndex = Idx 0 \<rparr>]"
proof -
  have "(advance_index 4 ^^ k) (Idx 0) = Idx ((0 + k) mod 4)" for k
    by (rule advance_index_funpow) simp_all
  then show ?thesis by (simp add: emitted_def upt_rec)
qed

lemma same_controls_trans:
  "same_controls s s' \<Longrightarrow> same_controls s' s'' \<Longrightarrow> same_controls s s''"
  by (simp add: same_controls_def)

lemma ran_refl: "ran c s 0 s"
  by (simp add: ran_def same_controls_def)

lemma ran_body: "ran c s 1 (loop_body c s)"
  by (simp add: ran_def same_controls_def loop_body_frame loop_body_clock loop_body_cursor emitted_def)

lemma ran_trans:
  assumes "ran c s n s'" and "ran c s' m s''"
  shows "ran c s (n + m) s''"
  using assms emitted_append[of "nextNoteTimeRef s" "secondsPerBeat c" "length (beatPatternRef s)" "currentBeatIndexRef s" n m]
  by (simp add: ran_def same_controls_def funpow_add algebra_simps add.commute[of n m])

lemma ran_funpow: "ran c s n ((loop_body c ^^ n) s)"
proof (induction n)
  case 0
  show ?case by (simp add: ran_refl)
next
  case (Suc n)
  have "ran c s (n + 1) (loop_body c ((loop_body c ^^ n) s))"
    by (rule ran_trans[OF Suc ran_body])
  then show ?case by simp
qed

lemma funpow_clock:
  "clockNow ((loop_body c ^^ n) s) = clockNow s"
  "timers ((loop_body c ^^ n) s) = timers s"
  "timerIDRef ((loop_body c ^^ n) s) = timerIDRef s"
  "nextTimerId ((loop_body c ^^ n) s) = nextTimerId s"
  by (induction n) (simp_all add: loop_body_clock loop_body_frame)

lemma ran_0_iff:
  "ran c s 0 s' \<longleftrightarrow> notesQueue s' = notesQueue s \<and> nextNoteTimeRef s' = nextNoteTimeRef s \<and>
     currentBeatIndexRef s' = currentBeatIndexRef s \<and> same_controls s s' \<and>
     (audioContextRef s' = None) = (audioContextRef s = None)"
  by (simp add: ran_def)

lemma ran_next: "ran c s n s' \<Longrightarrow> nextNoteTimeRef s' = nextNoteTimeRef s + real n * secondsPerBeat c"
  by (simp add: ran_def same_controls_def)

lemma setTimeout_ran: "ran c s 0 (setTimeout c' s)"
  by (simp add: ran_0_iff same_controls_def setTimeout_def)

lemma setTimeout_clock: "clockNow (setTimeout c s) = clockNow s"
  by (simp add: clockNow_def setTimeout_def)

lemma clockAdvance_ran: "ran c s 0 (clockAdvance dt s)"
  by (simp add: ran_0_iff same_controls_def clockAdvance_def split: option.splits)

lemma clockAdvance_clock:
  "audioContextRef s \<noteq> None \<Longrightarrow> clockNow (clockAdvance dt s) = clockNow s + dt"
  by (auto simp: clockNow_def clockAdvance_def split: option.splits)

lemma clockAdvance_frame:
  "timers (clockAdvance dt s) = timers s"
  "nextTimerId (clockAdvance dt s) = nextTimerId s"
  "timerIDRef (clockAdvance dt s) = timerIDRef s"
  by (simp_all add: clockAdvance_def split: option.splits)

lemma timers_upd_ran: "ran c s 0 (s\<lparr> timers := ts \<rparr>)"
  by (simp add: ran_0_iff same_controls_def)

lemma timers_upd_clock: "clockNow (s\<lparr> timers := ts \<rparr>) = clockNow s"
  by (simp add: clockNow_def)

subsection \<open>The loop returns when the tempo is positive\<close>

text \<open>
  Each iteration moves the cursor by \<open>60 / bpm\<close> towards the end of the window, so the
  loop stops after finitely many iterations; it stops with the cursor at or beyond the
  window, and the last note it emitted lies inside the window.
\<close>

lemma loop_stop: "\<not> loop_cond s \<Longrightarrow> scheduler_loop c s = Some s"
  by (subst scheduler_loop.simps) simp

lemma loop_step: "loop_cond s \<Longrightarrow> scheduler_loop c s = scheduler_loop c (loop_body c s)"
  by (subst scheduler_loop.simps) simp

lemma scheduler_loop_rule:
  assumes "0 < c_bpm c"
  shows "\<exists>n. scheduler_loop c s = Some ((loop_body c ^^ n) s)
            \<and> \<not> loop_cond ((loop_body c ^^ n) s)
            \<and> (\<forall>k<n. loop_cond ((loop_body c ^^ k) s))"
proof (induction "nat \<lceil>(clockNow s + scheduleAheadTime - nextNoteTimeRef s) / (secondsPerBeat c)\<rceil>"
         arbitrary: s rule: less_induct)
  case less
  show ?case
  proof (cases "loop_cond s")
    case False
    then have "scheduler_loop c s = Some s"
      by (subst scheduler_loop.simps) simp
    with False show ?thesis
      by (intro exI[of _ 0]) simp
  next
    case True
    let ?s1 = "loop_body c s"
    let ?spb = "secondsPerBeat c"
    let ?d = "clockNow s + scheduleAheadTime - nextNoteTimeRef s"
    have spb: "0 < ?spb" using assms by (simp add: secondsPerBeat_def)
    have d: "0 < ?d" using True by (simp add: loop_cond_iff)
    have eq: "(clockNow ?s1 + scheduleAheadTime - nextNoteTimeRef ?s1) / ?spb = ?d / ?spb - 1"
      using spb by (simp add: loop_body_clock loop_body_cursor field_simps)
    have "0 < ?d / ?spb" using d spb by simp
    then have "0 < \<lceil>?d / ?spb\<rceil>" by linarith
    then have "nat \<lceil>(clockNow ?s1 + scheduleAheadTime - nextNoteTimeRef ?s1) / ?spb\<rceil> < nat \<lceil>?d / ?spb\<rceil>"
      unfolding eq by simp
    from less[OF this] obtain n where n:
      "scheduler_loop c ?s1 = Some ((loop_body c ^^ n) ?s1)"
      "\<not> loop_cond ((loop_body c ^^ n) ?s1)"
      "\<forall>k<n. loop_cond ((loop_body c ^^ k) ?s1)"
      by blast
    have "scheduler_loop c s = scheduler_loop c ?s1"
      using True by (subst scheduler_loop.simps) simp
    moreover have "\<forall>k<Suc n. loop_cond ((loop_body c ^^ k) s)"
    proof (intro allI impI)
      fix k assume "k < Suc n"
      then show "loop_cond ((loop_body c ^^ k) s)"
        using True n(3) by (cases k) (simp_all add: funpow_swap1)
    qed
    ultimately show ?thesis
      using n(1,2) by (intro exI[of _ "Suc n"]) (simp add: funpow_swap1)
  qed
qed

lemma scheduler_loop_Some:
  assumes "scheduler_loop c s = Some s'"
  shows "\<exists>n. s' = (loop_body c ^^ n) s"
proof (rule scheduler_loop.raw_induct
    [where P = "\<lambda>c s s'. \<exists>n. s' = (loop_body c ^^ n) s", OF _ assms])
  fix f c s s'
  assume IH: "\<And>a b y. f a b = Some y \<Longrightarrow> \<exists>n. y = (loop_body a ^^ n) b"
    and eq: "(if loop_cond s then f c (loop_body c s) else Some s) = Some s'"
  show "\<exists>n. s' = (loop_body c ^^ n) s"
  proof (cases "loop_cond s")
    case True
    with eq IH obtain n where "s' = (loop_body c ^^ n) (loop_body c s)" by fastforce
    then have "s' = (loop_body c ^^ Suc n) s" by (simp add: funpow_swap1)
    then show ?thesis by blast
  next
    case False
    with eq have "s' = (loop_body c ^^ 0) s" by simp
    then show ?thesis by blast
  qed
qed

lemma scheduler_rule:
  assumes "0 < c_bpm c" and "audioContextRef s \<noteq> None"
  shows "\<exists>n s'. scheduler c s = Some s' \<and> ran c s n s' \<and> clockNow s' = clockNow s
           \<and> timers s' = timers s @ [(nextTimerId s, c)]
           \<and> timerIDRef s' = Some (nextTimerId s)
           \<and> nextTimerId s' = Suc (nextTimerId s)
           \<and> clockNow s + scheduleAheadTime \<le> nextNoteTimeRef s'
           \<and> (0 < n \<longrightarrow> nextNoteTimeRef s' < clockNow s + scheduleAheadTime + secondsPerBeat c)
           \<and> (nextNoteTimeRef s < clockNow s + scheduleAheadTime \<longrightarrow> 0 < n)"
proof -
  from scheduler_loop_rule[OF assms(1), of s] obtain n where n:
    "scheduler_loop c s = Some ((loop_body c ^^ n) s)"
    "\<not> loop_cond ((loop_body c ^^ n) s)"
    "\<forall>k<n. loop_cond ((loop_body c ^^ k) s)"
    by blast
  let ?s1 = "(loop_body c ^^ n) s"
  let ?s' = "setTimeout c ?s1"
  have r1: "ran c s n ?s1" by (rule ran_funpow)
  have ctx1: "audioContextRef ?s1 \<noteq> None"
    using r1 assms(2) by (simp add: ran_def same_controls_def)
  have "scheduler c s = Some ?s'"
    using assms(2) n(1) by (auto simp: scheduler_def split: option.splits)
  moreover have "ran c s n ?s'"
    using ran_trans[OF r1 setTimeout_ran[of c ?s1 c]] by simp
  moreover have "clockNow ?s' = clockNow s"
    by (simp add: setTimeout_clock funpow_clock)
  moreover have "timers ?s' = timers s @ [(nextTimerId s, c)]"
    "timerIDRef ?s' = Some (nextTimerId s)" "nextTimerId ?s' = Suc (nextTimerId s)"
    by (simp_all add: setTimeout_def funpow_clock)
  moreover have lower: "clockNow s + scheduleAheadTime \<le> nextNoteTimeRef ?s'"
    using n(2) ctx1 by (simp add: loop_cond_iff funpow_clock setTimeout_def)
  moreover have "0 < n \<longrightarrow> nextNoteTimeRef ?s' < clockNow s + scheduleAheadTime + secondsPerBeat c"
  proof
    assume "0 < n"
    then obtain k where k: "n = Suc k" by (cases n) auto
    then have "loop_cond ((loop_body c ^^ k) s)" using n(3) by simp
    then have "nextNoteTimeRef ((loop_body c ^^ k) s) < clockNow s + scheduleAheadTime"
      by (simp add: loop_cond_iff funpow_clock)
    moreover have "nextNoteTimeRef ((loop_body c ^^ k) s) = nextNoteTimeRef s + real k * secondsPerBeat c"
      using ran_funpow[of c s k] by (simp add: ran_def same_controls_def)
    moreover have "nextNoteTimeRef ?s' = nextNoteTimeRef s + real n * secondsPerBeat c"
      using r1 by (simp add: ran_def same_controls_def setTimeout_def)
    ultimately show "nextNoteTimeRef ?s' < clockNow s + scheduleAheadTime + secondsPerBeat c"
      using k by (simp add: algebra_simps)
  qed
  moreover have "nextNoteTimeRef s < clockNow s + scheduleAheadTime \<longrightarrow> 0 < n"
  proof
    assume "nextNoteTimeRef s < clockNow s + scheduleAheadTime"
    then have "loop_cond s" using assms(2) by (simp add: loop_cond_iff)
    with n(2) show "0 < n" by (cases n) auto
  qed
  ultimately show ?thesis by blast
qed

subsection \<open>Runs of timer ticks\<close>

lemma run_append:
  "run (es @ fs) s = (case run es s of None \<Rightarrow> None | Some s' \<Rightarrow> run fs s')"
  by (induction es arbitrary: s) (simp_all split: option.splits)

lemma run_ticks_ran:
  assumes "0 < c_bpm c" and "audioContextRef s \<noteq> None" and "timers s = [(i, c)]"
  shows "\<exists>n s' j. run (ticks dts) s = Some s' \<and> ran c s n s' \<and> timers s' = [(j, c)]"
  using assms(2-)
proof (induction dts arbitrary: s i)
  case Nil
  have "run (ticks []) s = Some s" by (simp add: ticks_def)
  then show ?case using Nil ran_refl[of c s] by auto
next
  case (Cons dt dts)
  let ?s1 = "clockAdvance dt s"
  let ?s2 = "?s1\<lparr> timers := [] \<rparr>"
  have ctx2: "audioContextRef ?s2 \<noteq> None"
    using Cons.prems(1) by (simp add: clockAdvance_def split: option.splits)
  have r2: "ran c s 0 ?s2"
    using ran_trans[OF clockAdvance_ran[of c s dt] timers_upd_ran[of c ?s1 "[]"]] by simp
  from scheduler_rule[OF assms(1) ctx2] obtain n s3 where s3:
    "scheduler c ?s2 = Some s3" "ran c ?s2 n s3"
    "timers s3 = timers ?s2 @ [(nextTimerId ?s2, c)]"
    by blast
  have r3: "ran c s n s3" using ran_trans[OF r2 s3(2)] by simp
  have tf: "timerFire ?s1 = Some s3"
    using Cons.prems(2) s3(1) by (simp add: timerFire_def clockAdvance_frame)
  have t3: "timers s3 = [(nextTimerId ?s2, c)]" using s3(3) by simp
  have ctx3: "audioContextRef s3 \<noteq> None" using r3 Cons.prems(1) by (simp add: ran_def)
  from Cons.IH[OF ctx3 t3] obtain m s' j where s':
    "run (ticks dts) s3 = Some s'" "ran c s3 m s'" "timers s' = [(j, c)]"
    by blast
  have "run (ticks (dt # dts)) s = Some s'"
    using tf s'(1) by (simp add: ticks_def)
  moreover have "ran c s (n + m) s'" by (rule ran_trans[OF r3 s'(2)])
  ultimately show ?case using s'(3) by blast
qed

lemma run_ticks_rule:
  assumes "0 < c_bpm c"
    and "audioContextRef s \<noteq> None"
    and "timers s = [(i, c)]"
    and "\<forall>dt\<in>set dts. 0 \<le> dt"
    and "nextNoteTimeRef s < clockNow s + scheduleAheadTime + secondsPerBeat c"
  shows "\<exists>n s' j. run (ticks dts) s = Some s' \<and> ran c s n s'
           \<and> clockNow s' = clockNow s + sum_list dts
           \<and> timers s' = [(j, c)]
           \<and> nextNoteTimeRef s' < clockNow s' + scheduleAheadTime + secondsPerBeat c
           \<and> (dts \<noteq> [] \<longrightarrow> clockNow s' + scheduleAheadTime \<le> nextNoteTimeRef s')"
  using assms(2-)
proof (induction dts arbitrary: s i)
  case Nil
  have "run (ticks []) s = Some s" by (simp add: ticks_def)
  then show ?case using Nil ran_refl[of c s] by auto
next
  case (Cons dt dts)
  let ?s1 = "clockAdvance dt s"
  let ?s2 = "?s1\<lparr> timers := [] \<rparr>"
  have dt: "0 \<le> dt" using Cons.prems by simp
  have ctx2: "audioContextRef ?s2 \<noteq> None"
    using Cons.prems(1) by (simp add: clockAdvance_def split: option.splits)
  have r2: "ran c s 0 ?s2"
    using ran_trans[OF clockAdvance_ran[of c s dt] timers_upd_ran[of c ?s1 "[]"]] by simp
  have clk2: "clockNow ?s2 = clockNow s + dt"
    using Cons.prems(1) by (simp add: timers_upd_clock clockAdvance_clock)
  from scheduler_rule[OF assms(1) ctx2] obtain n s3 where s3:
    "scheduler c ?s2 = Some s3" "ran c ?s2 n s3" "clockNow s3 = clockNow ?s2"
    "timers s3 = timers ?s2 @ [(nextTimerId ?s2, c)]"
    "clockNow ?s2 + scheduleAheadTime \<le> nextNoteTimeRef s3"
    "0 < n \<longrightarrow> nextNoteTimeRef s3 < clockNow ?s2 + scheduleAheadTime + secondsPerBeat c"
    by blast
  have r3: "ran c s n s3" using ran_trans[OF r2 s3(2)] by simp
  have tf: "timerFire ?s1 = Some s3"
    using Cons.prems(2) s3(1) by (simp add: timerFire_def clockAdvance_frame)
  have t3: "timers s3 = [(nextTimerId ?s2, c)]" using s3(4) by simp
  have ctx3: "audioContextRef s3 \<noteq> None" using r3 Cons.prems(1) by (simp add: ran_def same_controls_def)
  have up3: "nextNoteTimeRef s3 < clockNow s3 + scheduleAheadTime + secondsPerBeat c"
  proof (cases "0 < n")
    case True
    then show ?thesis using s3(3,6) by simp
  next
    case False
    then have "nextNoteTimeRef s3 = nextNoteTimeRef s" using r3 by (simp add: ran_def same_controls_def)
    then show ?thesis using Cons.prems(4) s3(3) clk2 dt by simp
  qed
  have "\<forall>dt\<in>set dts. 0 \<le> dt" using Cons.prems(3) by simp
  from Cons.IH[OF ctx3 t3 this up3] obtain m s' j where s':
    "run (ticks dts) s3 = Some s'" "ran c s3 m s'"
    "clockNow s' = clockNow s3 + sum_list dts" "timers s' = [(j, c)]"
    "nextNoteTimeRef s' < clockNow s' + scheduleAheadTime + secondsPerBeat c"
    "dts \<noteq> [] \<longrightarrow> clockNow s' + scheduleAheadTime \<le> nextNoteTimeRef s'"
    by blast
  have "run (ticks (dt # dts)) s = Some s'"
    using tf s'(1) by (simp add: ticks_def)
  moreover have "ran c s (n + m) s'" by (rule ran_trans[OF r3 s'(2)])
  moreover have "clockNow s' = clockNow s + sum_list (dt # dts)"
    using s'(3) s3(3) clk2 by simp
  moreover have "clockNow s' + scheduleAheadTime \<le> nextNoteTimeRef s'"
  proof (cases "dts = []")
    case True
    then have "s' = s3" using s'(1) by (simp add: ticks_def)
    then show ?thesis using s3(3,5) by simp
  next
    case False
    then show ?thesis using s'(6) by simp
  qed
  ultimately show ?case using s'(4,5) by blast
qed

subsection \<open>Starting and restarting playback\<close>

text \<open>
  The audio lifecycle effect, when playing, resets the cursor to \<open>(clockNow + 0.05, 0)\<close>
  and calls \<open>scheduler\<close>, whose loop then runs at least once.
\<close>

lemma clearTimer_fields:
  "clockNow (clearTimer s) = clockNow s"
  "notesQueue (clearTimer s) = notesQueue s"
  "nextNoteTimeRef (clearTimer s) = nextNoteTimeRef s"
  "currentBeatIndexRef (clearTimer s) = currentBeatIndexRef s"
  "audioContextRef (clearTimer s) = audioContextRef s"
  "timerIDRef (clearTimer s) = timerIDRef s"
  "nextTimerId (clearTimer s) = nextTimerId s"
  "timers s = [] \<Longrightarrow> timers (clearTimer s) = []"
  by (simp_all add: clearTimer_def clearTimeout_def clockNow_def split: option.splits)

lemma clearTimer_same: "same_controls s (clearTimer s)"
  by (simp add: same_controls_def clearTimer_def clearTimeout_def split: option.splits)

lemma clearTimer_empties:
  assumes "timers s = [] \<or> (\<exists>i c. 0 < i \<and> timerIDRef s = Some i \<and> timers s = [(i, c)])"
  shows "timers (clearTimer s) = []"
  using assms by (auto simp: clearTimer_def clearTimeout_def split: option.splits)

lemma visual_fields:
  "bpm (visualEffect s) = bpm s" "isPlaying (visualEffect s) = isPlaying s"
  "nextTimerId (visualEffect s) = nextTimerId s" "timers (visualEffect s) = timers s"
  "timerIDRef (visualEffect s) = timerIDRef s" "notesQueue (visualEffect s) = notesQueue s"
  "clockNow (visualEffect s) = clockNow s"
  "bpm (visualCleanup s) = bpm s" "isPlaying (visualCleanup s) = isPlaying s"
  "nextTimerId (visualCleanup s) = nextTimerId s" "timers (visualCleanup s) = timers s"
  "timerIDRef (visualCleanup s) = timerIDRef s" "notesQueue (visualCleanup s) = notesQueue s"
  "clockNow (visualCleanup s) = clockNow s"
  by (simp_all add: visualEffect_def visualCleanup_def clockNow_def)

lemma startCursor_fields:
  "audioContextRef (startCursor s) \<noteq> None"
  "clockNow (startCursor s) = clockNow s"
  "nextNoteTimeRef (startCursor s) = clockNow s + 1 / 20"
  "currentBeatIndexRef (startCursor s) = Idx 0"
  "notesQueue (startCursor s) = notesQueue s"
  "timers (startCursor s) = timers s"
  "timerIDRef (startCursor s) = timerIDRef s"
  "nextTimerId (startCursor s) = nextTimerId s"
  "same_controls s (startCursor s)"
  by (simp_all add: startCursor_def Let_def clockNow_def newAudioContext_def same_controls_def
      split: option.splits)

lemma audioEffect_playing:
  "isPlaying s \<Longrightarrow> audioEffect s = scheduler (closure_of s) (startCursor s)"
  by (simp add: audioEffect_def startCursor_def Let_def)

lemma audioEffect_start:
  assumes "isPlaying s" and "0 < bpm s"
  shows "\<exists>n s'. audioEffect s = Some s' \<and> 0 < n \<and> ran (closure_of s) (startCursor s) n s'
           \<and> clockNow s' = clockNow s
           \<and> timers s' = timers s @ [(nextTimerId s, closure_of s)]
           \<and> timerIDRef s' = Some (nextTimerId s)
           \<and> nextTimerId s' = Suc (nextTimerId s)
           \<and> clockNow s' + scheduleAheadTime \<le> nextNoteTimeRef s'
           \<and> nextNoteTimeRef s' < clockNow s' + scheduleAheadTime + secondsPerBeat (closure_of s)"
proof -
  have c: "0 < c_bpm (closure_of s)" using assms(2) by (simp add: closure_of_def)
  have lt: "nextNoteTimeRef (startCursor s) < clockNow (startCursor s) + scheduleAheadTime"
    by (simp add: startCursor_fields scheduleAheadTime_def)
  from scheduler_rule[OF c startCursor_fields(1), of s] lt
  show ?thesis
    unfolding audioEffect_playing[OF assms(1)] by (auto simp: startCursor_fields)
qed

lemma audioEffect_rule:
  assumes "0 < bpm s"
  shows "\<exists>s'. audioEffect s = Some s' \<and> isPlaying s' = isPlaying s \<and> bpm s' = bpm s
           \<and> isMuted s' = isMuted s \<and> beatPattern s' = beatPattern s
           \<and> beatPatternRef s' = beatPatternRef s \<and> activeBeatIndex s' = activeBeatIndex s
           \<and> tapTimesRef s' = tapTimesRef s \<and> lastTapRef s' = lastTapRef s
           \<and> volume s' = volume s \<and> volumeRef s' = volumeRef s \<and> rafPending s' = rafPending s"
proof (cases "isPlaying s")
  case False
  then show ?thesis
    using clearTimer_same[of s] by (simp add: audioEffect_def same_controls_def)
next
  case True
  define ctx0 where "ctx0 = (case audioContextRef s of None \<Rightarrow> newAudioContext | Some ctx \<Rightarrow> ctx)"
  define ctx where "ctx = (if suspended ctx0 then ctx0\<lparr> suspended := False \<rparr> else ctx0)"
  define s1 where "s1 = s\<lparr> audioContextRef := Some ctx, currentBeatIndexRef := Idx 0,
                            nextNoteTimeRef := currentTime ctx + 5 / 100 \<rparr>"
  have eff: "audioEffect s = scheduler (closure_of s) s1"
    using True by (simp add: audioEffect_def Let_def ctx0_def ctx_def s1_def)
  have "0 < c_bpm (closure_of s)" using assms by (simp add: closure_of_def)
  moreover have "audioContextRef s1 \<noteq> None" by (simp add: s1_def)
  ultimately obtain n s' where "scheduler (closure_of s) s1 = Some s'" "ran (closure_of s) s1 n s'"
    using scheduler_rule by blast
  then show ?thesis
    using eff by (simp add: ran_def same_controls_def s1_def)
qed

lemma setBpm_rule:
  assumes "0 < v"
  shows "\<exists>s'. setBpm v s = Some s' \<and> bpm s' = v \<and> isPlaying s' = isPlaying s
           \<and> isMuted s' = isMuted s \<and> beatPattern s' = beatPattern s
           \<and> beatPatternRef s' = beatPatternRef s
           \<and> tapTimesRef s' = tapTimesRef s \<and> lastTapRef s' = lastTapRef s"
proof (cases "v = bpm s")
  case True
  then show ?thesis by (simp add: setBpm_def)
next
  case False
  let ?s1 = "audioCleanup (s\<lparr> bpm := v \<rparr>)"
  have c: "same_controls (s\<lparr> bpm := v \<rparr>) ?s1"
    unfolding audioCleanup_def by (rule clearTimer_same)
  then have "0 < bpm ?s1" using assms by (simp add: same_controls_def)
  from audioEffect_rule[OF this] c False show ?thesis
    by (auto simp: setBpm_def same_controls_def)
qed

lemma prepared_fields:
  "isPlaying (prepared s)"
  "bpm (prepared s) = bpm s"
  "isMuted (prepared s) = isMuted s"
  "beatPatternRef (prepared s) = beatPatternRef s"
  "clockNow (prepared s) = clockNow s"
  "notesQueue (prepared s) = notesQueue s"
  "nextTimerId (prepared s) = nextTimerId s"
  "timers s = [] \<Longrightarrow> timers (prepared s) = []"
  by (simp_all add: prepared_def visualEffect_def audioCleanup_def visualCleanup_def
      clearTimer_def clearTimeout_def clockNow_def split: option.splits)

lemma clickPlay_prepared:
  "\<not> isPlaying s \<Longrightarrow> step ClickPlay s = audioEffect (prepared s)"
  by (simp add: setIsPlaying_def prepared_def)

lemma start_then_ticks:
  assumes "\<not> isPlaying s" and "0 < bpm s" and "timers s = []" and "\<forall>dt\<in>set dts. 0 \<le> dt"
  shows "\<exists>n s'. run (ClickPlay # ticks dts) s = Some s' \<and> 0 < n
     \<and> notesQueue s' = notesQueue s @
           emitted (clockNow s + 1 / 20) (60 / bpm s) (length (beatPatternRef s)) (Idx 0) n
     \<and> nextNoteTimeRef s' = clockNow s + 1 / 20 + real n * (60 / bpm s)
     \<and> currentBeatIndexRef s' = (advance_index (length (beatPatternRef s)) ^^ n) (Idx 0)
     \<and> clockNow s' = clockNow s + sum_list dts
     \<and> clockNow s' + scheduleAheadTime \<le> nextNoteTimeRef s'
     \<and> nextNoteTimeRef s' < clockNow s' + scheduleAheadTime + 60 / bpm s
     \<and> isPlaying s' \<and> bpm s' = bpm s \<and> beatPatternRef s' = beatPatternRef s"
proof -
  let ?p = "prepared s"
  let ?c = "closure_of ?p"
  have spb: "secondsPerBeat ?c = 60 / bpm s"
    by (simp add: secondsPerBeat_def closure_of_def prepared_fields)
  have cpos: "0 < c_bpm ?c" using assms(2) by (simp add: closure_of_def prepared_fields)
  have "0 < bpm ?p" using assms(2) by (simp add: prepared_fields)
  from audioEffect_start[OF prepared_fields(1) this] obtain n0 s2 where s2:
    "audioEffect ?p = Some s2" "0 < n0" "ran ?c (startCursor ?p) n0 s2"
    "clockNow s2 = clockNow ?p"
    "timers s2 = timers ?p @ [(nextTimerId ?p, ?c)]"
    "clockNow s2 + scheduleAheadTime \<le> nextNoteTimeRef s2"
    "nextNoteTimeRef s2 < clockNow s2 + scheduleAheadTime + secondsPerBeat ?c"
    by blast
  have t2: "timers s2 = [(nextTimerId ?p, ?c)]"
    using s2(5) assms(3) by (simp add: prepared_fields)
  have ctx2: "audioContextRef s2 \<noteq> None"
    using s2(3) by (simp add: ran_def startCursor_fields)
  from run_ticks_rule[OF cpos ctx2 t2 assms(4) s2(7)] obtain n s' where s':
    "run (ticks dts) s2 = Some s'" "ran ?c s2 n s'"
    "clockNow s' = clockNow s2 + sum_list dts"
    "nextNoteTimeRef s' < clockNow s' + scheduleAheadTime + secondsPerBeat ?c"
    "dts \<noteq> [] \<longrightarrow> clockNow s' + scheduleAheadTime \<le> nextNoteTimeRef s'"
    by blast
  have r: "ran ?c (startCursor ?p) (n0 + n) s'" by (rule ran_trans[OF s2(3) s'(2)])
  have run: "run (ClickPlay # ticks dts) s = Some s'"
    using clickPlay_prepared[OF assms(1)] s2(1) s'(1) by simp
  have low: "clockNow s' + scheduleAheadTime \<le> nextNoteTimeRef s'"
  proof (cases "dts = []")
    case True
    then have "s' = s2" using s'(1) by (simp add: ticks_def)
    then show ?thesis using s2(6) by simp
  next
    case False
    then show ?thesis using s'(5) by simp
  qed
  have sc: "same_controls ?p s'"
    using r startCursor_fields(9)[of ?p] by (simp add: ran_def same_controls_def)
  have "notesQueue s' = notesQueue s @
           emitted (clockNow s + 1 / 20) (60 / bpm s) (length (beatPatternRef s)) (Idx 0) (n0 + n)"
    "nextNoteTimeRef s' = clockNow s + 1 / 20 + real (n0 + n) * (60 / bpm s)"
    "currentBeatIndexRef s' = (advance_index (length (beatPatternRef s)) ^^ (n0 + n)) (Idx 0)"
    using r startCursor_fields(9)[of ?p] unfolding ran_def spb
    by (simp_all add: startCursor_fields prepared_fields same_controls_def)
  moreover have "clockNow s' = clockNow s + sum_list dts"
    using s'(3) s2(4) by (simp add: prepared_fields)
  moreover have "nextNoteTimeRef s' < clockNow s' + scheduleAheadTime + 60 / bpm s"
    using s'(4) spb by simp
  moreover have "isPlaying s'" "bpm s' = bpm s" "beatPatternRef s' = beatPatternRef s"
    using sc by (simp_all add: same_controls_def prepared_fields)
  moreover have "0 < n0 + n" using s2(2) by simp
  ultimately show ?thesis using run low by blast
qed

lemma start_120_two_seconds:
  assumes "\<not> isPlaying s" and "bpm s = 120"
    and "beatPatternRef s = [Accent, Normal, Normal, Normal]" and "timers s = []"
  shows "\<exists>s'. run (ClickPlay # ticks (replicate 80 (1 / 40))) s = Some s'
     \<and> clockNow s' = clockNow s + 2
     \<and> notesQueue s' = notesQueue s @
         [\<lparr> time = clockNow s + 1 / 20, beatIndex = Idx 0 \<rparr>,
          \<lparr> time = clockNow s + 1 / 20 + 1 / 2, beatIndex = Idx 1 \<rparr>,
          \<lparr> time = clockNow s + 1 / 20 + 1, beatIndex = Idx 2 \<rparr>,
          \<lparr> time = clockNow s + 1 / 20 + 3 / 2, beatIndex = Idx 3 \<rparr>,
          \<lparr> time = clockNow s + 1 / 20 + 2, beatIndex = Idx 0 \<rparr>]"
proof -
  have pos: "0 < bpm s" using assms(2) by simp
  have nonneg: "\<forall>dt\<in>set (replicate 80 (1 / 40 :: real)). 0 \<le> dt" by simp
  have total: "sum_list (replicate 80 (1 / 40 :: real)) = 2" by (simp add: sum_list_replicate)
  from start_then_ticks[OF assms(1) pos assms(4) nonneg] obtain n s' where s':
    "run (ClickPlay # ticks (replicate 80 (1 / 40))) s = Some s'"
    "notesQueue s' = notesQueue s @
           emitted (clockNow s + 1 / 20) (60 / bpm s) (length (beatPatternRef s)) (Idx 0) n"
    "nextNoteTimeRef s' = clockNow s + 1 / 20 + real n * (60 / bpm s)"
    "clockNow s' = clockNow s + sum_list (replicate 80 (1 / 40))"
    "clockNow s' + scheduleAheadTime \<le> nextNoteTimeRef s'"
    "nextNoteTimeRef s' < clockNow s' + scheduleAheadTime + 60 / bpm s"
    by blast
  have "41 / 10 \<le> real n" "real n < 51 / 10"
    using s'(3,4,5,6) assms(2) unfolding total by (simp_all add: scheduleAheadTime_def)
  then have "4 < n" "n < 6" by linarith+
  then have n: "n = 5" by simp
  have L: "length (beatPatternRef s) = 4" using assms(3) by simp
  have "emitted (clockNow s + 1 / 20) (60 / bpm s) (length (beatPatternRef s)) (Idx 0) n
      = emitted (clockNow s + 1 / 20) (1 / 2) 4 (Idx 0) 5"
    unfolding L n assms(2) by simp
  then show ?thesis
    using s'(1,2,4) unfolding total by (simp add: emitted_5)
qed

lemma restart_single_note:
  assumes "isPlaying s" and "30 \<le> bpm s" and "bpm s \<le> 300"
  shows "\<exists>s'. audioEffect s = Some s' \<and> same_controls s s'
     \<and> timers s' = timers s @ [(nextTimerId s, closure_of s)]
     \<and> notesQueue s' = notesQueue s @ [\<lparr> time = clockNow s + 1 / 20, beatIndex = Idx 0 \<rparr>]
     \<and> nextNoteTimeRef s' = clockNow s + 1 / 20 + 60 / bpm s
     \<and> currentBeatIndexRef s' = index_mod (Idx 1) (length (beatPatternRef s))"
proof -
  let ?c = "closure_of s"
  have pos: "0 < bpm s" using assms(2) by simp
  have spb: "secondsPerBeat ?c = 60 / bpm s" by (simp add: secondsPerBeat_def closure_of_def)
  have "60 / bpm s \<ge> 60 / 300" using assms(2,3) by (intro divide_left_mono) simp_all
  then have big: "1 / 5 \<le> 60 / bpm s" by simp
  from audioEffect_start[OF assms(1) pos] obtain n s' where s':
    "audioEffect s = Some s'" "0 < n" "ran ?c (startCursor s) n s'"
    "clockNow s' = clockNow s"
    "timers s' = timers s @ [(nextTimerId s, ?c)]"
    "nextNoteTimeRef s' < clockNow s' + scheduleAheadTime + secondsPerBeat ?c"
    by blast
  have nx: "nextNoteTimeRef s' = clockNow s + 1 / 20 + real n * (60 / bpm s)"
    using ran_next[OF s'(3)] by (simp add: startCursor_fields spb)
  have "n < 2"
  proof (rule ccontr)
    assume "\<not> n < 2"
    then have "2 \<le> real n" by simp
    moreover have "0 \<le> 60 / bpm s" using big by linarith
    ultimately have "2 * (60 / bpm s) \<le> real n * (60 / bpm s)"
      by (rule mult_right_mono)
    then show False
      using s'(4,6) nx big unfolding spb by (simp add: scheduleAheadTime_def)
  qed
  with s'(2) have n: "n = 1" by simp
  have sc: "same_controls s s'"
    using s'(3) startCursor_fields(9)[of s] by (simp add: ran_def same_controls_def)
  have "notesQueue s' = notesQueue s @ [\<lparr> time = clockNow s + 1 / 20, beatIndex = Idx 0 \<rparr>]"
    "currentBeatIndexRef s' = index_mod (Idx 1) (length (beatPatternRef s))"
    using s'(3) startCursor_fields(9)[of s] unfolding n ran_def
    by (simp_all add: startCursor_fields emitted_def advance_index_def same_controls_def)
  then show ?thesis using s'(1,5) sc nx n by simp
qed

subsection \<open>Tap tempo\<close>

text \<open>
  The window a tap leaves, the mean of its intervals and the estimate are named
  \<open>tapWindow\<close>, \<open>tapMean\<close> and \<open>tapEstimate\<close>; \<open>handleTap\<close>, which reduces the
  intervals with \<open>+\<close> from their first element, computes exactly these.
\<close>

lemma foldl_plus_sum_list: "foldl (+) a xs = a + sum_list xs" for a :: real
  by (induction xs arbitrary: a) simp_all

lemma reduce_plus_sum_list:
  "xs \<noteq> [] \<Longrightarrow> foldl (+) (hd xs) (tl xs) = sum_list xs" for xs :: "real list"
  by (cases xs) (simp_all add: foldl_plus_sum_list)

lemma tapIntervals_nonempty: "1 < length ts \<Longrightarrow> tapIntervals ts \<noteq> []"
  by (cases ts; cases "tl ts") (simp_all add: tapIntervals_def)

lemma handleTap_eq:
  "handleTap now s =
     (if 1 < length (tapWindow now s) \<and> tapMean (tapWindow now s) \<noteq> 0
           \<and> 30 \<le> tapEstimate (tapWindow now s) \<and> tapEstimate (tapWindow now s) \<le> 300
      then setBpm (real_of_int (tapEstimate (tapWindow now s)))
             (s\<lparr> tapTimesRef := tapWindow now s, lastTapRef := now \<rparr>)
      else Some (s\<lparr> tapTimesRef := tapWindow now s, lastTapRef := now \<rparr>))"
proof -
  let ?W = "tapWindow now s"
  let ?s1 = "s\<lparr> tapTimesRef := ?W, lastTapRef := now \<rparr>"
  let ?avg = "foldl (+) (hd (tapIntervals ?W)) (tl (tapIntervals ?W)) / real (length (tapIntervals ?W))"
  have src: "handleTap now s =
     (if 1 < length ?W then
        (if ?avg = 0 then Some ?s1
         else if 30 \<le> round (60000 / ?avg) \<and> round (60000 / ?avg) \<le> 300
              then setBpm (real_of_int (round (60000 / ?avg))) ?s1 else Some ?s1)
      else Some ?s1)"
    by (simp add: handleTap_def tapWindow_def Let_def)
  show ?thesis
  proof (cases "1 < length ?W")
    case False
    then show ?thesis unfolding src by simp
  next
    case True
    then have "?avg = tapMean ?W"
      by (simp add: tapMean_def reduce_plus_sum_list tapIntervals_nonempty)
    then show ?thesis unfolding src by (simp add: tapEstimate_def)
  qed
qed

lemma handleTap_rule:
  "\<exists>s'. handleTap now s = Some s' \<and> tapTimesRef s' = tapWindow now s \<and> lastTapRef s' = now
     \<and> bpm s' = (if 1 < length (tapWindow now s) \<and> tapMean (tapWindow now s) \<noteq> 0
                    \<and> 30 \<le> tapEstimate (tapWindow now s) \<and> tapEstimate (tapWindow now s) \<le> 300
                 then real_of_int (tapEstimate (tapWindow now s)) else bpm s)"
proof -
  let ?W = "tapWindow now s"
  let ?s1 = "s\<lparr> tapTimesRef := ?W, lastTapRef := now \<rparr>"
  let ?ok = "1 < length ?W \<and> tapMean ?W \<noteq> 0 \<and> 30 \<le> tapEstimate ?W \<and> tapEstimate ?W \<le> 300"
  have eq: "handleTap now s = (if ?ok then setBpm (real_of_int (tapEstimate ?W)) ?s1 else Some ?s1)"
    by (rule handleTap_eq)
  show ?thesis
  proof (cases ?ok)
    case False
    then show ?thesis unfolding eq by auto
  next
    case True
    then have "0 < real_of_int (tapEstimate ?W)" by simp
    from setBpm_rule[OF this, of ?s1] True show ?thesis unfolding eq by auto
  qed
qed

lemma tapWindow_length: "length (tapTimesRef s) \<le> 4 \<Longrightarrow> length (tapWindow now s) \<le> 4"
  by (simp add: tapWindow_def)

lemma tapWindow_snoc:
  assumes "length (tapTimesRef s) \<le> 4"
  shows "\<exists>xs. tapWindow now s = xs @ [now] \<and> length xs \<le> 3"
proof (cases "tapTimesRef s")
  case Nil
  then show ?thesis by (simp add: tapWindow_def)
next
  case (Cons a as)
  then show ?thesis using assms by (auto simp: tapWindow_def)
qed

lemma short_list_cases:
  assumes "length xs \<le> 3"
  shows "xs = [] \<or> (\<exists>a. xs = [a]) \<or> (\<exists>a b. xs = [a, b]) \<or> (\<exists>a b c. xs = [a, b, c])"
proof (cases xs)
  case Nil
  then show ?thesis by simp
next
  case (Cons a as)
  note c1 = this
  show ?thesis
  proof (cases as)
    case Nil
    then show ?thesis using c1 by simp
  next
    case (Cons b bs)
    note c2 = this
    show ?thesis
    proof (cases bs)
      case Nil
      then show ?thesis using c1 c2 by simp
    next
      case (Cons d ds)
      then show ?thesis using c1 c2 assms by simp
    qed
  qed
qed

lemma four_taps_window:
  assumes "tapTimesRef s1 = xs @ [t]" and "length xs \<le> 3" and "lastTapRef s1 = t"
    and "tapTimesRef s2 = tapWindow (t + 500) s1" and "lastTapRef s2 = t + 500"
    and "tapTimesRef s3 = tapWindow (t + 1000) s2" and "lastTapRef s3 = t + 1000"
  shows "tapWindow (t + 1500) s3 = [t, t + 500, t + 1000, t + 1500]"
  using short_list_cases[OF assms(2)] assms(1,3-)
  by (auto simp: tapWindow_def)

lemma tapEstimate_500: "tapEstimate [t, t + 500, t + 1000, t + 1500] = 120"
  "tapMean [t, t + 500, t + 1000, t + 1500] = 500"
  by (simp_all add: tapEstimate_def tapMean_def tapIntervals_def)

lemma handleTap_initial: "handleTap 5000 initial = Some tapped"
  by (simp add: handleTap_def initial_def tapped_def Let_def)

subsection \<open>The visualizer\<close>

lemma drain_all:
  "\<forall>n\<in>set q. time n < now \<Longrightarrow> q \<noteq> [] \<Longrightarrow> drain now q a = ([], Some (beatIndex (last q)))"
proof (induction q arbitrary: a)
  case Nil
  then show ?case by simp
next
  case (Cons n q)
  then show ?case by (cases q) auto
qed

lemma drain_suffix: "set (fst (drain now q a)) \<subseteq> set q"
  by (induction q arbitrary: a) auto

subsection \<open>Concrete runs\<close>

text \<open>
  The states \<open>started\<close> and \<open>ticked\<close> are what the component computes from its initial
  state: after the play button, and after half a second and one timer tick more.
\<close>

lemmas eval_defs = initial_def scheduleNote_def nextNote_def loop_body_def loop_cond_def
  setTimeout_def clearTimeout_def scheduler_def draw_def visualEffect_def visualCleanup_def
  clearTimer_def newAudioContext_def audioEffect_def audioCleanup_def setBpm_def setIsMuted_def
  setIsPlaying_def setBeatPattern_def setVolume_def handleBeatClick_def changeTimeSignature_def
  tapIntervals_def handleTap_def timerFire_def clockAdvance_def closure_of_def secondsPerBeat_def
  scheduleAheadTime_def Let_def

lemma run_start: "run [ClickPlay] initial = Some started"
  by (simp add: eval_defs started_def loop_step loop_stop)

lemma run_ticked: "run [ClickPlay, ClockAdvance (1 / 2), TimerFire] initial = Some ticked"
proof -
  have "run [ClockAdvance (1 / 2), TimerFire] started = Some ticked"
    by (simp add: eval_defs started_def ticked_def loop_step loop_stop)
  then show ?thesis
    using run_append[of "[ClickPlay]" "[ClockAdvance (1 / 2), TimerFire]" initial]
    by (simp only: run_start append.simps option.case)
qed

lemma run_tick_started:
  "map_option (\<lambda>s. map time (notesQueue s)) (run (ticks [1 / 2]) started) = Some [1 / 20, 11 / 20]"
  by (simp add: ticks_def eval_defs started_def loop_step loop_stop)

lemma run_ticked_slider:
  "map_option (\<lambda>s. (nextNoteTimeRef s, currentBeatIndexRef s, map fst (timers s)))
       (step (SliderChange 100) ticked) = Some (23 / 20, Idx 1, [3])"
  by (simp add: eval_defs ticked_def loop_step loop_stop)

lemma run_slider_taps:
  "map_option bpm (run [SliderChange 200, Tap 5000, Tap 5100] initial) = Some 200"
  by (simp add: eval_defs)

subsection \<open>Invariants of the reachable states\<close>

text \<open>
  Whatever the user and the browser do (with slider values the range widget can deliver
  and a clock that does not run backwards), every handler returns, the tempo stays
  within [30, 300], at most one timeout is pending and its callback closes over the
  current tempo and mute flag, every queued onset is inside the schedule-ahead window,
  and during playback the cursor is less than one beat beyond the window. The pattern
  keeps between 1 and 12 slots and the beat cursor stays in bounds.
\<close>

lemma timers_ok_iff:
  "timers_ok s \<longleftrightarrow> 0 < nextTimerId s \<and>
     (timers s = [] \<or> (\<exists>i. 0 < i \<and> timerIDRef s = Some i \<and> timers s = [(i, closure_of s)]))"
  by (auto simp: timers_ok_def split: list.splits)

lemma bounds_ok_iff:
  "bounds_ok s \<longleftrightarrow> beatPatternRef s = beatPattern s \<and> beatPattern s \<noteq> [] \<and>
     length (beatPattern s) \<le> 12 \<and>
     (\<exists>i. i < length (beatPatternRef s) \<and> currentBeatIndexRef s = Idx i)"
  by (auto simp: bounds_ok_def split: index.splits)

lemma scheduler_inv:
  assumes "0 < c_bpm c" and "audioContextRef s \<noteq> None" and "queue_ok s"
  shows "\<exists>n s'. scheduler c s = Some s' \<and> ran c s n s' \<and> clockNow s' = clockNow s
           \<and> timers s' = timers s @ [(nextTimerId s, c)]
           \<and> timerIDRef s' = Some (nextTimerId s)
           \<and> nextTimerId s' = Suc (nextTimerId s)
           \<and> queue_ok s'
           \<and> (0 < n \<longrightarrow> nextNoteTimeRef s' < clockNow s + scheduleAheadTime + secondsPerBeat c)
           \<and> (nextNoteTimeRef s < clockNow s + scheduleAheadTime \<longrightarrow> 0 < n)"
proof -
  from scheduler_rule[OF assms(1,2)] obtain n s' where s':
    "scheduler c s = Some s'" "ran c s n s'" "clockNow s' = clockNow s"
    "timers s' = timers s @ [(nextTimerId s, c)]"
    "timerIDRef s' = Some (nextTimerId s)"
    "nextTimerId s' = Suc (nextTimerId s)"
    "0 < n \<longrightarrow> nextNoteTimeRef s' < clockNow s + scheduleAheadTime + secondsPerBeat c"
    "nextNoteTimeRef s < clockNow s + scheduleAheadTime \<longrightarrow> 0 < n"
    by blast
  have spb: "0 \<le> secondsPerBeat c" using assms(1) by (simp add: secondsPerBeat_def)
  have nx: "nextNoteTimeRef s' = nextNoteTimeRef s + real n * secondsPerBeat c"
    using s'(2) by (rule ran_next)
  have "list_all (\<lambda>x. time x < clockNow s + scheduleAheadTime)
     (emitted (nextNoteTimeRef s) (secondsPerBeat c) (length (beatPatternRef s)) (currentBeatIndexRef s) n)"
    using s'(7) nx by (intro emitted_within[OF spb]) simp
  then have "queue_ok s'"
    using assms(3) s'(2,3) by (simp add: queue_ok_def ran_def)
  then show ?thesis using s' by blast
qed

lemma audioEffect_inv:
  assumes "30 \<le> bpm s" and "bpm s \<le> 300" and "0 < nextTimerId s" and "timers s = []"
    and "queue_ok s"
  shows "\<exists>s'. audioEffect s = Some s' \<and> sched_inv s' \<and> same_controls s s'"
proof (cases "isPlaying s")
  case False
  have "timers (clearTimer s) = []" using assms(4) by (simp add: clearTimer_fields)
  moreover have "queue_ok (clearTimer s)"
    using assms(5) by (simp add: queue_ok_def clearTimer_fields)
  ultimately have "sched_inv (clearTimer s)"
    using assms(1-3) False clearTimer_same[of s]
    by (simp add: sched_inv_def timers_ok_iff same_controls_def clearTimer_fields)
  then show ?thesis using False clearTimer_same[of s] by (simp add: audioEffect_def)
next
  case True
  let ?c = "closure_of s"
  let ?s0 = "startCursor s"
  have c: "0 < c_bpm ?c" using assms(1) by (simp add: closure_of_def)
  have spb: "secondsPerBeat ?c = 60 / bpm s" by (simp add: secondsPerBeat_def closure_of_def)
  have q0: "queue_ok ?s0" using assms(5) by (simp add: queue_ok_def startCursor_fields)
  have lt: "nextNoteTimeRef ?s0 < clockNow ?s0 + scheduleAheadTime"
    by (simp add: startCursor_fields scheduleAheadTime_def)
  from scheduler_inv[OF c startCursor_fields(1) q0] lt obtain n s' where s':
    "scheduler ?c ?s0 = Some s'" "ran ?c ?s0 n s'" "clockNow s' = clockNow ?s0"
    "timers s' = timers ?s0 @ [(nextTimerId ?s0, ?c)]"
    "timerIDRef s' = Some (nextTimerId ?s0)"
    "nextTimerId s' = Suc (nextTimerId ?s0)"
    "queue_ok s'"
    "nextNoteTimeRef s' < clockNow ?s0 + scheduleAheadTime + secondsPerBeat ?c"
    by blast
  have sc: "same_controls s s'"
    using s'(2) startCursor_fields(9)[of s] by (simp add: ran_def same_controls_def)
  have cl: "closure_of s' = ?c" using sc by (simp add: closure_of_def same_controls_def)
  have "timers_ok s'"
    using s'(4,5,6) assms(3,4) cl by (simp add: timers_ok_iff startCursor_fields)
  moreover have "cursor_ok s'"
    using s'(2,3,8) sc spb
    by (simp add: cursor_ok_def ran_def startCursor_fields same_controls_def)
  ultimately have "sched_inv s'"
    using assms(1,2) sc s'(7) by (simp add: sched_inv_def same_controls_def)
  then show ?thesis
    using s'(1) sc audioEffect_playing[OF True] by simp
qed

lemma timers_ok_ids:
  "timers_ok s \<Longrightarrow> timers s = [] \<or> (\<exists>i c. 0 < i \<and> timerIDRef s = Some i \<and> timers s = [(i, c)])"
  by (auto simp: timers_ok_iff)

lemma cleared_inv:
  assumes "sched_inv s"
    and "30 \<le> bpm s1" and "bpm s1 \<le> 300"
    and "nextTimerId s1 = nextTimerId s" and "timers s1 = timers s"
    and "timerIDRef s1 = timerIDRef s" and "notesQueue s1 = notesQueue s"
    and "clockNow s1 = clockNow s"
  shows "30 \<le> bpm (clearTimer s1) \<and> bpm (clearTimer s1) \<le> 300 \<and> 0 < nextTimerId (clearTimer s1)
       \<and> timers (clearTimer s1) = [] \<and> queue_ok (clearTimer s1)"
proof -
  have ids: "timers s1 = [] \<or> (\<exists>i c. 0 < i \<and> timerIDRef s1 = Some i \<and> timers s1 = [(i, c)])"
    using timers_ok_ids[of s] assms(1,5,6) by (simp add: sched_inv_def)
  have "queue_ok (clearTimer s1)"
    using assms(1,7,8) by (simp add: sched_inv_def queue_ok_def clearTimer_fields)
  moreover have "0 < nextTimerId (clearTimer s1)"
    using assms(1,4) by (simp add: sched_inv_def timers_ok_iff clearTimer_fields)
  moreover have "bpm (clearTimer s1) = bpm s1"
    using clearTimer_same[of s1] by (simp add: same_controls_def)
  ultimately show ?thesis
    using assms(2,3) clearTimer_empties[OF ids] by simp
qed

lemma restart_inv:
  assumes "sched_inv s"
    and "30 \<le> bpm s1" and "bpm s1 \<le> 300"
    and "nextTimerId s1 = nextTimerId s" and "timers s1 = timers s"
    and "timerIDRef s1 = timerIDRef s" and "notesQueue s1 = notesQueue s"
    and "clockNow s1 = clockNow s"
  shows "\<exists>s'. audioEffect (audioCleanup s1) = Some s' \<and> sched_inv s' \<and> same_controls s1 s'"
proof -
  from cleared_inv[OF assms] have c:
    "30 \<le> bpm (clearTimer s1)" "bpm (clearTimer s1) \<le> 300" "0 < nextTimerId (clearTimer s1)"
    "timers (clearTimer s1) = []" "queue_ok (clearTimer s1)" by simp_all
  from audioEffect_inv[OF c] obtain s' where
    "audioEffect (clearTimer s1) = Some s'" "sched_inv s'" "same_controls (clearTimer s1) s'"
    by blast
  then show ?thesis
    using same_controls_trans[OF clearTimer_same[of s1]] by (auto simp: audioCleanup_def)
qed

lemma setBpm_inv:
  assumes "sched_inv s" and "30 \<le> v" and "v \<le> 300"
  shows "\<exists>s'. setBpm v s = Some s' \<and> sched_inv s' \<and> bpm s' = v"
proof (cases "v = bpm s")
  case True
  then show ?thesis using assms(1) by (simp add: setBpm_def)
next
  case False
  from restart_inv[OF assms(1), of "s\<lparr> bpm := v \<rparr>"] assms(2,3)
  obtain s' where "audioEffect (audioCleanup (s\<lparr> bpm := v \<rparr>)) = Some s'" "sched_inv s'"
    "same_controls (s\<lparr> bpm := v \<rparr>) s'"
    by (auto simp: clockNow_def)
  then show ?thesis using False by (auto simp: setBpm_def same_controls_def)
qed

lemma setIsMuted_inv:
  assumes "sched_inv s"
  shows "\<exists>s'. setIsMuted b s = Some s' \<and> sched_inv s'"
proof (cases "b = isMuted s")
  case True
  then show ?thesis using assms(1) by (simp add: setIsMuted_def)
next
  case False
  from restart_inv[OF assms(1), of "s\<lparr> isMuted := b \<rparr>"] assms
  obtain s' where "audioEffect (audioCleanup (s\<lparr> isMuted := b \<rparr>)) = Some s'" "sched_inv s'"
    by (auto simp: clockNow_def sched_inv_def)
  then show ?thesis using False by (auto simp: setIsMuted_def)
qed

lemma setIsPlaying_inv:
  assumes "sched_inv s"
  shows "\<exists>s'. setIsPlaying b s = Some s' \<and> sched_inv s'"
proof (cases "b = isPlaying s")
  case True
  then show ?thesis using assms(1) by (simp add: setIsPlaying_def)
next
  case False
  let ?s1 = "visualCleanup (s\<lparr> isPlaying := b \<rparr>)"
  have b: "30 \<le> bpm ?s1" "bpm ?s1 \<le> 300"
    using assms by (simp_all add: sched_inv_def visual_fields)
  have f: "nextTimerId ?s1 = nextTimerId s" "timers ?s1 = timers s" "timerIDRef ?s1 = timerIDRef s"
    "notesQueue ?s1 = notesQueue s" "clockNow ?s1 = clockNow s"
    by (simp_all add: visual_fields) (simp add: clockNow_def)
  from cleared_inv[OF assms b f] have c:
    "30 \<le> bpm (clearTimer ?s1)" "bpm (clearTimer ?s1) \<le> 300" "0 < nextTimerId (clearTimer ?s1)"
    "timers (clearTimer ?s1) = []" "queue_ok (clearTimer ?s1)" by simp_all
  let ?s2 = "visualEffect (clearTimer ?s1)"
  have c2: "30 \<le> bpm ?s2" "bpm ?s2 \<le> 300" "0 < nextTimerId ?s2" "timers ?s2 = []" "queue_ok ?s2"
    using c by (simp_all add: visual_fields queue_ok_def)
  from audioEffect_inv[OF c2] obtain s' where "audioEffect ?s2 = Some s'" "sched_inv s'" by blast
  then show ?thesis using False by (auto simp: setIsPlaying_def audioCleanup_def)
qed

lemma handleTap_inv:
  assumes "sched_inv s"
  shows "\<exists>s'. handleTap now s = Some s' \<and> sched_inv s'"
proof -
  let ?W = "tapWindow now s"
  let ?s1 = "s\<lparr> tapTimesRef := ?W, lastTapRef := now \<rparr>"
  let ?ok = "1 < length ?W \<and> tapMean ?W \<noteq> 0 \<and> 30 \<le> tapEstimate ?W \<and> tapEstimate ?W \<le> 300"
  have eq: "handleTap now s = (if ?ok then setBpm (real_of_int (tapEstimate ?W)) ?s1 else Some ?s1)"
    by (rule handleTap_eq)
  have inv1: "sched_inv ?s1"
    using assms
    by (simp add: sched_inv_def timers_ok_iff queue_ok_def cursor_ok_def closure_of_def clockNow_def)
  show ?thesis
  proof (cases ?ok)
    case False
    then show ?thesis using inv1 unfolding eq by auto
  next
    case True
    then have "30 \<le> real_of_int (tapEstimate ?W)" "real_of_int (tapEstimate ?W) \<le> 300" by simp_all
    from setBpm_inv[OF inv1 this] True show ?thesis unfolding eq by auto
  qed
qed

lemma draw_inv:
  assumes "sched_inv s"
  shows "sched_inv (draw s)"
proof -
  have q: "queue_ok (draw s)"
    using assms drain_suffix[of "clockNow s" "notesQueue s" "activeBeatIndex s"]
    by (auto simp: sched_inv_def queue_ok_def draw_def clockNow_def list_all_iff
        split: option.splits prod.splits)
  have "bpm (draw s) = bpm s" "isPlaying (draw s) = isPlaying s" "timers (draw s) = timers s"
    "timerIDRef (draw s) = timerIDRef s" "nextTimerId (draw s) = nextTimerId s"
    "closure_of (draw s) = closure_of s" "clockNow (draw s) = clockNow s"
    "nextNoteTimeRef (draw s) = nextNoteTimeRef s"
    "(audioContextRef (draw s) = None) = (audioContextRef s = None)"
    by (simp_all add: draw_def closure_of_def clockNow_def split: option.splits prod.splits)
  then show ?thesis
    using assms q by (simp add: sched_inv_def timers_ok_iff cursor_ok_def)
qed

lemma clockAdvance_inv:
  assumes "sched_inv s" and "0 \<le> dt"
  shows "sched_inv (clockAdvance dt s)"
proof (cases "audioContextRef s")
  case None
  then show ?thesis using assms(1) by (simp add: clockAdvance_def)
next
  case (Some ctx)
  then have clk: "clockNow (clockAdvance dt s) = clockNow s + dt"
    by (simp add: clockAdvance_clock)
  have f: "bpm (clockAdvance dt s) = bpm s" "isPlaying (clockAdvance dt s) = isPlaying s"
    "closure_of (clockAdvance dt s) = closure_of s"
    "nextNoteTimeRef (clockAdvance dt s) = nextNoteTimeRef s"
    "notesQueue (clockAdvance dt s) = notesQueue s"
    "audioContextRef (clockAdvance dt s) \<noteq> None"
    using Some by (simp_all add: clockAdvance_def closure_of_def)
  have "queue_ok (clockAdvance dt s)"
    using assms by (auto simp: sched_inv_def queue_ok_def clk f list_all_iff)
  then show ?thesis
    using assms by (auto simp: sched_inv_def timers_ok_iff cursor_ok_def clk f clockAdvance_frame)
qed

lemma timerFire_inv:
  assumes "sched_inv s"
  shows "\<exists>s'. timerFire s = Some s' \<and> sched_inv s'"
proof (cases "timers s")
  case Nil
  then show ?thesis using assms by (simp add: timerFire_def)
next
  case (Cons t ts)
  then obtain i where t: "timers s = [(i, closure_of s)]"
    using assms by (auto simp: sched_inv_def timers_ok_iff)
  let ?c = "closure_of s"
  let ?s1 = "s\<lparr> timers := [] \<rparr>"
  have tf: "timerFire s = scheduler ?c ?s1" using t by (simp add: timerFire_def)
  show ?thesis
  proof (cases "audioContextRef s")
    case None
    then have "scheduler ?c ?s1 = Some ?s1" by (simp add: scheduler_def)
    moreover have "sched_inv ?s1"
      using assms None
      by (simp add: sched_inv_def timers_ok_iff queue_ok_def cursor_ok_def clockNow_def)
    ultimately show ?thesis using tf by simp
  next
    case (Some ctx)
    have c: "0 < c_bpm ?c" using assms by (simp add: sched_inv_def closure_of_def)
    have spb: "secondsPerBeat ?c = 60 / bpm s" by (simp add: secondsPerBeat_def closure_of_def)
    have ctx1: "audioContextRef ?s1 \<noteq> None" using Some by simp
    have q1: "queue_ok ?s1" using assms by (simp add: sched_inv_def queue_ok_def clockNow_def)
    from scheduler_inv[OF c ctx1 q1] obtain n s' where s':
      "scheduler ?c ?s1 = Some s'" "ran ?c ?s1 n s'" "clockNow s' = clockNow ?s1"
      "timers s' = timers ?s1 @ [(nextTimerId ?s1, ?c)]"
      "timerIDRef s' = Some (nextTimerId ?s1)"
      "nextTimerId s' = Suc (nextTimerId ?s1)"
      "queue_ok s'"
      "0 < n \<longrightarrow> nextNoteTimeRef s' < clockNow ?s1 + scheduleAheadTime + secondsPerBeat ?c"
      by blast
    have sc: "same_controls s s'" using s'(2) by (simp add: ran_def same_controls_def)
    have cl: "closure_of s' = ?c" using sc by (simp add: closure_of_def same_controls_def)
    have clk: "clockNow s' = clockNow s" using s'(3) by (simp add: clockNow_def)
    have tok: "timers_ok s'"
      using s'(4,5,6) assms cl by (simp add: timers_ok_iff sched_inv_def)
    have cur: "cursor_ok s'" if "isPlaying s"
    proof (cases "0 < n")
      case True
      then show ?thesis
        using s'(2,8) clk sc spb Some by (simp add: cursor_ok_def ran_def same_controls_def clockNow_def)
    next
      case False
      then have "nextNoteTimeRef s' = nextNoteTimeRef s" using s'(2) by (simp add: ran_def)
      then show ?thesis
        using assms that s'(2) clk sc
        by (simp add: sched_inv_def cursor_ok_def ran_def same_controls_def)
    qed
    have "sched_inv s'"
      using assms tok s'(7) sc cur by (simp add: sched_inv_def same_controls_def)
    then show ?thesis using tf s'(1) by simp
  qed
qed

lemma pattern_inv:
  assumes "sched_inv s"
  shows "sched_inv (handleBeatClick i s)" and "sched_inv (changeTimeSignature d s)"
    and "sched_inv (setVolume v s)"
  using assms
  by (simp_all add: sched_inv_def timers_ok_iff queue_ok_def cursor_ok_def closure_of_def
      clockNow_def handleBeatClick_def changeTimeSignature_def setBeatPattern_def setVolume_def Let_def)

lemma step_inv:
  assumes "sched_inv s" and "valid_event e"
  shows "\<exists>s'. step e s = Some s' \<and> sched_inv s'"
proof (cases e)
  case ClickPlay
  then show ?thesis using setIsPlaying_inv[OF assms(1)] by simp
next
  case ClickMute
  then show ?thesis using setIsMuted_inv[OF assms(1)] by simp
next
  case (SliderChange v)
  then have "30 \<le> v" "v \<le> 300" using assms(2) by (simp_all add: valid_event_def)
  from setBpm_inv[OF assms(1) this] SliderChange show ?thesis by auto
next
  case (VolumeChange v)
  then show ?thesis using pattern_inv(3)[OF assms(1)] by simp
next
  case (Tap now)
  then show ?thesis using handleTap_inv[OF assms(1)] by simp
next
  case (BeatClick i)
  then show ?thesis using pattern_inv(1)[OF assms(1)] by simp
next
  case (TimeSignature d)
  then show ?thesis using pattern_inv(2)[OF assms(1)] by simp
next
  case TimerFire
  then show ?thesis using timerFire_inv[OF assms(1)] by simp
next
  case AnimationFrame
  then show ?thesis using draw_inv[OF assms(1)] by simp
next
  case (ClockAdvance dt)
  then have "0 \<le> dt" using assms(2) by (simp add: valid_event_def)
  from clockAdvance_inv[OF assms(1) this] ClockAdvance show ?thesis by simp
qed

lemma run_inv:
  assumes "sched_inv s" and "list_all valid_event es"
  shows "\<exists>s'. run es s = Some s' \<and> sched_inv s'"
  using assms
proof (induction es arbitrary: s)
  case Nil
  then show ?case by simp
next
  case (Cons e es)
  from step_inv[OF Cons.prems(1), of e] Cons.prems(2) obtain s1 where
    "step e s = Some s1" "sched_inv s1" by auto
  with Cons.IH[of s1] Cons.prems(2) show ?case by auto
qed

lemma initial_inv: "sched_inv initial"
  by (simp add: sched_inv_def timers_ok_iff queue_ok_def initial_def)

lemma loop_body_bounds: "bounds_ok s \<Longrightarrow> bounds_ok (loop_body c s)"
  by (auto simp: bounds_ok_iff loop_body_frame loop_body_cursor advance_index_def)

lemma funpow_bounds: "bounds_ok s \<Longrightarrow> bounds_ok ((loop_body c ^^ n) s)"
  by (induction n) (simp_all add: loop_body_bounds)

lemma scheduler_bounds:
  assumes "bounds_ok s" and "scheduler c s = Some s'"
  shows "bounds_ok s'"
proof (cases "audioContextRef s")
  case None
  then show ?thesis using assms by (simp add: scheduler_def)
next
  case (Some ctx)
  with assms(2) obtain s1 where s1: "scheduler_loop c s = Some s1" "s' = setTimeout c s1"
    by (auto simp: scheduler_def split: option.splits)
  from scheduler_loop_Some[OF s1(1)] obtain n where "s1 = (loop_body c ^^ n) s" by blast
  then have "bounds_ok s1" using assms(1) by (simp add: funpow_bounds)
  then show ?thesis using s1(2) by (auto simp: bounds_ok_iff setTimeout_def)
qed

lemma clearTimer_bounds: "bounds_ok (clearTimer s) = bounds_ok s"
  by (auto simp: bounds_ok_iff clearTimer_def clearTimeout_def split: option.splits)

lemma audioEffect_bounds:
  assumes "bounds_ok s" and "audioEffect s = Some s'"
  shows "bounds_ok s'"
proof (cases "isPlaying s")
  case False
  then show ?thesis using assms by (auto simp: audioEffect_def clearTimer_bounds)
next
  case True
  have "bounds_ok (startCursor s)"
    using assms(1) by (auto simp: bounds_ok_iff startCursor_def Let_def)
  then show ?thesis
    using assms(2) scheduler_bounds unfolding audioEffect_playing[OF True] by blast
qed

lemma changeTimeSignature_bounds:
  assumes "bounds_ok s"
  shows "bounds_ok (changeTimeSignature d s)"
proof -
  obtain i where i: "i < length (beatPattern s)" "currentBeatIndexRef s = Idx i"
    using assms by (auto simp: bounds_ok_iff)
  have ne: "beatPattern s \<noteq> []" and le: "length (beatPattern s) \<le> 12"
    using assms by (simp_all add: bounds_ok_iff)
  show ?thesis
  proof (cases "0 < d")
    case True
    then show ?thesis
      using i ne le by (auto simp: bounds_ok_iff changeTimeSignature_def setBeatPattern_def Let_def)
  next
    case False
    show ?thesis
    proof (cases "1 < length (beatPattern s)")
      case True
      then have "butlast (beatPattern s) \<noteq> []"
        by (cases "beatPattern s" rule: rev_cases) auto
      then show ?thesis
        using False True i le
        by (auto simp: bounds_ok_iff changeTimeSignature_def setBeatPattern_def Let_def)
    next
      case False
      then show ?thesis
        using \<open>\<not> 0 < d\<close> i ne le
        by (auto simp: bounds_ok_iff changeTimeSignature_def setBeatPattern_def Let_def)
    qed
  qed
qed

lemma step_bounds:
  assumes "bounds_ok s" and "step e s = Some s'"
  shows "bounds_ok s'"
proof (cases e)
  case ClickPlay
  have "bounds_ok (visualEffect (audioCleanup (visualCleanup (s\<lparr> isPlaying := \<not> isPlaying s \<rparr>))))"
    using assms(1)
    by (auto simp: bounds_ok_iff visualEffect_def visualCleanup_def audioCleanup_def
        clearTimer_def clearTimeout_def split: option.splits)
  then show ?thesis
    using assms(2) ClickPlay audioEffect_bounds by (auto simp: setIsPlaying_def)
next
  case ClickMute
  have "bounds_ok (audioCleanup (s\<lparr> isMuted := \<not> isMuted s \<rparr>))"
    using assms(1) by (auto simp: bounds_ok_iff audioCleanup_def clearTimer_def clearTimeout_def
        split: option.splits)
  then show ?thesis
    using assms(2) ClickMute audioEffect_bounds by (auto simp: setIsMuted_def)
next
  case (SliderChange v)
  have "bounds_ok (audioCleanup (s\<lparr> bpm := v \<rparr>))"
    using assms(1) by (auto simp: bounds_ok_iff audioCleanup_def clearTimer_def clearTimeout_def
        split: option.splits)
  then show ?thesis
    using assms SliderChange audioEffect_bounds by (auto simp: setBpm_def split: if_splits)
next
  case (VolumeChange v)
  then show ?thesis using assms by (auto simp: bounds_ok_iff setVolume_def)
next
  case (Tap now)
  let ?s1 = "s\<lparr> tapTimesRef := tapWindow now s, lastTapRef := now \<rparr>"
  have b1: "bounds_ok ?s1" using assms(1) by (auto simp: bounds_ok_iff)
  have "handleTap now s = Some ?s1 \<or> (\<exists>v. handleTap now s = setBpm v ?s1)"
    unfolding handleTap_eq by auto
  moreover have "bounds_ok t" if "setBpm v ?s1 = Some t" for v t
  proof -
    have "bounds_ok (audioCleanup (?s1\<lparr> bpm := v \<rparr>))"
      using b1 by (auto simp: bounds_ok_iff audioCleanup_def clearTimer_def clearTimeout_def
          split: option.splits)
    then show ?thesis
      using that b1 audioEffect_bounds by (auto simp: setBpm_def split: if_splits)
  qed
  ultimately show ?thesis using assms(2) Tap b1 by auto
next
  case (BeatClick i)
  then show ?thesis
    using assms
    by (auto simp: bounds_ok_iff handleBeatClick_def setBeatPattern_def Let_def split: if_splits)
next
  case (TimeSignature d)
  then show ?thesis using assms changeTimeSignature_bounds by auto
next
  case TimerFire
  show ?thesis
  proof (cases "timers s")
    case Nil
    then show ?thesis using assms TimerFire by (simp add: timerFire_def)
  next
    case (Cons t ts)
    obtain i c where "t = (i, c)" by (cases t)
    with Cons have "timerFire s = scheduler c (s\<lparr> timers := ts \<rparr>)" by (simp add: timerFire_def)
    moreover have "bounds_ok (s\<lparr> timers := ts \<rparr>)" using assms(1) by (auto simp: bounds_ok_iff)
    ultimately show ?thesis using assms(2) TimerFire scheduler_bounds by auto
  qed
next
  case AnimationFrame
  then show ?thesis
    using assms by (auto simp: bounds_ok_iff draw_def split: option.splits prod.splits if_splits)
next
  case (ClockAdvance dt)
  then show ?thesis
    using assms by (auto simp: bounds_ok_iff clockAdvance_def split: option.splits)
qed

lemma run_bounds:
  assumes "bounds_ok s" and "run es s = Some s'"
  shows "bounds_ok s'"
  using assms
proof (induction es arbitrary: s)
  case Nil
  then show ?case by simp
next
  case (Cons e es)
  then obtain s1 where "step e s = Some s1" "run es s1 = Some s'"
    by (auto split: option.splits)
  with Cons.IH[of s1] step_bounds[OF Cons.prems(1)] show ?case by blast
qed

lemma initial_bounds: "bounds_ok initial"
  by (simp add: bounds_ok_iff initial_def)

lemma reachable_bounds: "run es initial = Some s \<Longrightarrow> bounds_ok s"
  by (rule run_bounds[OF initial_bounds])

section \<open>The claims\<close>

text \<open>
  Half a second after the start at 120 BPM the cursor is \<open>(1.05, 2)\<close> and timeout 2 is
  pending. Moving the slider to 100 then cancels that timeout, schedules beat 0 at 0.55
  and leaves the cursor at \<open>(1.15, 1)\<close> with timeout 3 pending.
\<close>
theorem tempo_change_restarts_counterexample:
  "map_option (\<lambda>s. (nextNoteTimeRef s, currentBeatIndexRef s, map fst (timers s)))
       (run [ClickPlay, ClockAdvance (1 / 2), TimerFire] initial) = Some (21 / 20, Idx 2, [2])
   \<and> map_option (\<lambda>s. (nextNoteTimeRef s, currentBeatIndexRef s, map fst (timers s)))
       (run [ClickPlay, ClockAdvance (1 / 2), TimerFire, SliderChange 100] initial)
      = Some (23 / 20, Idx 1, [3])"
proof -
  have "run [ClickPlay, ClockAdvance (1 / 2), TimerFire, SliderChange 100] initial
      = run [SliderChange 100] ticked"
    using run_append[of "[ClickPlay, ClockAdvance (1 / 2), TimerFire]" "[SliderChange 100]" initial]
    by (simp only: run_ticked append.simps option.case)
  then have "run [ClickPlay, ClockAdvance (1 / 2), TimerFire, SliderChange 100] initial
      = step (SliderChange 100) ticked"
    by (simp split: option.splits)
  then show ?thesis
    using run_ticked_slider unfolding run_ticked by (simp add: ticked_def)
qed

text \<open>
  C1 (as amended). In a playing state, setting a tempo different from the current one
  cancels the pending timeout and runs the start sequence again: the cursor is reset,
  the note at \<open>clockNow + 0.05\<close> with beat index 0 is scheduled at once, the cursor is
  one beat of the new tempo after it, and a new timeout is armed. Setting the current
  tempo again changes nothing. A change of the beat pattern leaves \<open>nextNoteTimeRef\<close>
  and the pending timeout as they are.
\<close>
theorem tempo_change_restarts_scheduler:
  assumes "isPlaying s" and "timerIDRef s = Some i" and "0 < i"
    and "timers s = [(i, closure_of s)]"
    and "30 \<le> v" and "v \<le> 300" and "v \<noteq> bpm s"
  shows "(\<exists>s'. setBpm v s = Some s' \<and> bpm s' = v
            \<and> timers s' = [(nextTimerId s, \<lparr> c_bpm = v, c_isMuted = isMuted s \<rparr>)]
            \<and> notesQueue s' = notesQueue s @ [\<lparr> time = clockNow s + 1 / 20, beatIndex = Idx 0 \<rparr>]
            \<and> nextNoteTimeRef s' = clockNow s + 1 / 20 + 60 / v
            \<and> currentBeatIndexRef s' = index_mod (Idx 1) (length (beatPatternRef s)))
       \<and> setBpm (bpm s) s = Some s
       \<and> nextNoteTimeRef (changeTimeSignature d s) = nextNoteTimeRef s
       \<and> timers (changeTimeSignature d s) = timers s
       \<and> nextNoteTimeRef (handleBeatClick j s) = nextNoteTimeRef s
       \<and> currentBeatIndexRef (handleBeatClick j s) = currentBeatIndexRef s
       \<and> timers (handleBeatClick j s) = timers s"
proof -
  let ?s1 = "clearTimer (s\<lparr> bpm := v \<rparr>)"
  have t1: "timers ?s1 = []"
    using assms(2,3,4) by (intro clearTimer_empties) simp
  have sc1: "same_controls (s\<lparr> bpm := v \<rparr>) ?s1" by (rule clearTimer_same)
  then have p1: "isPlaying ?s1" "30 \<le> bpm ?s1" "bpm ?s1 \<le> 300"
    using assms(1,5,6) by (simp_all add: same_controls_def)
  have f1: "nextTimerId ?s1 = nextTimerId s" "notesQueue ?s1 = notesQueue s"
    "clockNow ?s1 = clockNow s" "bpm ?s1 = v" "beatPatternRef ?s1 = beatPatternRef s"
    "closure_of ?s1 = \<lparr> c_bpm = v, c_isMuted = isMuted s \<rparr>"
    using sc1 by (simp_all add: clearTimer_fields same_controls_def closure_of_def) (simp add: clockNow_def)
  from restart_single_note[OF p1] obtain s' where s':
    "audioEffect ?s1 = Some s'" "same_controls ?s1 s'"
    "timers s' = timers ?s1 @ [(nextTimerId ?s1, closure_of ?s1)]"
    "notesQueue s' = notesQueue ?s1 @ [\<lparr> time = clockNow ?s1 + 1 / 20, beatIndex = Idx 0 \<rparr>]"
    "nextNoteTimeRef s' = clockNow ?s1 + 1 / 20 + 60 / bpm ?s1"
    "currentBeatIndexRef s' = index_mod (Idx 1) (length (beatPatternRef ?s1))"
    by blast
  have "setBpm v s = Some s'"
    using assms(7) s'(1) by (simp add: setBpm_def audioCleanup_def)
  moreover have "bpm s' = v" using s'(2) f1(4) by (simp add: same_controls_def)
  ultimately have restart: "\<exists>s'. setBpm v s = Some s' \<and> bpm s' = v
            \<and> timers s' = [(nextTimerId s, \<lparr> c_bpm = v, c_isMuted = isMuted s \<rparr>)]
            \<and> notesQueue s' = notesQueue s @ [\<lparr> time = clockNow s + 1 / 20, beatIndex = Idx 0 \<rparr>]
            \<and> nextNoteTimeRef s' = clockNow s + 1 / 20 + 60 / v
            \<and> currentBeatIndexRef s' = index_mod (Idx 1) (length (beatPatternRef s))"
    using s'(3-6) t1 f1 by simp
  have same: "setBpm (bpm s) s = Some s" by (simp add: setBpm_def)
  have pat: "nextNoteTimeRef (changeTimeSignature d s) = nextNoteTimeRef s"
    "timers (changeTimeSignature d s) = timers s"
    "nextNoteTimeRef (handleBeatClick j s) = nextNoteTimeRef s"
    "currentBeatIndexRef (handleBeatClick j s) = currentBeatIndexRef s"
    "timers (handleBeatClick j s) = timers s"
    by (simp_all add: changeTimeSignature_def handleBeatClick_def setBeatPattern_def Let_def)
  show ?thesis using restart same pat by simp
qed

theorem tempo_change_restarts_scheduler_witness:
  "isPlaying ticked \<and> timerIDRef ticked = Some 2 \<and> (0 :: nat) < 2
   \<and> timers ticked = [(2, closure_of ticked)]
   \<and> (30 :: real) \<le> 100 \<and> (100 :: real) \<le> 300 \<and> 100 \<noteq> bpm ticked
   \<and> map_option (\<lambda>s. (nextNoteTimeRef s, currentBeatIndexRef s, map fst (timers s)))
        (setBpm 100 ticked) = Some (23 / 20, Idx 1, [3])
   \<and> (nextNoteTimeRef ticked, currentBeatIndexRef ticked, map fst (timers ticked))
        = (21 / 20, Idx 2, [2])
   \<and> nextNoteTimeRef (changeTimeSignature (- 1) ticked) = 21 / 20
   \<and> map fst (timers (changeTimeSignature (- 1) ticked)) = [2]"
proof -
  have h: "isPlaying ticked" "timerIDRef ticked = Some 2" "(0 :: nat) < 2"
    "timers ticked = [(2, closure_of ticked)]"
    "(30 :: real) \<le> 100" "(100 :: real) \<le> 300" "100 \<noteq> bpm ticked"
    by (simp_all add: ticked_def closure_of_def)
  have f: "nextTimerId ticked = 3" "clockNow ticked = 1 / 2" "nextNoteTimeRef ticked = 21 / 20"
    "length (beatPatternRef ticked) = 4" "currentBeatIndexRef ticked = Idx 2"
    by (simp_all add: ticked_def clockNow_def)
  from tempo_change_restarts_scheduler[OF h, of "- 1" 0]
  show ?thesis using h by (auto simp: f)
qed

text \<open>
  C2. With the tempo \<open>T\<close> of the scheduler's closure in [30, 300], the onsets of \<open>N\<close>
  consecutively scheduled notes are \<open>nextNoteTimeRef + k * (60 / T)\<close> for \<open>k < N\<close>, and
  what any run of timer ticks emits is such a sequence. Times are exact reals.
\<close>
theorem fixed_tempo_onsets_arithmetic:
  assumes "30 \<le> T" and "T \<le> 300" and "c_bpm c = T"
  shows "map time (drop (length (notesQueue s)) (notesQueue ((loop_body c ^^ N) s)))
           = map (\<lambda>k. nextNoteTimeRef s + real k * (60 / T)) [0..<N]
       \<and> (audioContextRef s \<noteq> None \<and> timers s = [(i, c)] \<longrightarrow>
            (\<exists>s' N'. run (ticks dts) s = Some s'
               \<and> map time (drop (length (notesQueue s)) (notesQueue s'))
                  = map (\<lambda>k. nextNoteTimeRef s + real k * (60 / T)) [0..<N']))"
proof (intro conjI impI)
  have spb: "secondsPerBeat c = 60 / T" using assms(3) by (simp add: secondsPerBeat_def)
  have times: "map time (drop (length (notesQueue s)) (notesQueue s'))
           = map (\<lambda>k. nextNoteTimeRef s + real k * (60 / T)) [0..<n]"
    if "ran c s n s'" for n s'
    using that unfolding ran_def spb by (simp add: emitted_def comp_def)
  show "map time (drop (length (notesQueue s)) (notesQueue ((loop_body c ^^ N) s)))
           = map (\<lambda>k. nextNoteTimeRef s + real k * (60 / T)) [0..<N]"
    by (rule times[OF ran_funpow])
  assume a: "audioContextRef s \<noteq> None \<and> timers s = [(i, c)]"
  have "0 < c_bpm c" using assms by simp
  from run_ticks_ran[OF this, of s i dts] a obtain n s' where
    "run (ticks dts) s = Some s'" "ran c s n s'" by blast
  then show "\<exists>s' N'. run (ticks dts) s = Some s'
               \<and> map time (drop (length (notesQueue s)) (notesQueue s'))
                  = map (\<lambda>k. nextNoteTimeRef s + real k * (60 / T)) [0..<N']"
    using times by blast
qed

theorem fixed_tempo_onsets_arithmetic_witness:
  "(30 :: real) \<le> 120 \<and> (120 :: real) \<le> 300 \<and> c_bpm (closure_of started) = 120
   \<and> map time (drop (length (notesQueue started))
        (notesQueue ((loop_body (closure_of started) ^^ 3) started)))
      = [11 / 20, 11 / 20 + 1 / 2, 11 / 20 + 1]
   \<and> audioContextRef started \<noteq> None \<and> timers started = [(1, closure_of started)]
   \<and> map_option (\<lambda>s. map time (notesQueue s)) (run (ticks [1 / 2]) started)
      = Some [1 / 20, 11 / 20]"
proof -
  have h: "(30 :: real) \<le> 120" "(120 :: real) \<le> 300" "c_bpm (closure_of started) = 120"
    by (simp_all add: closure_of_def started_def)
  have a: "audioContextRef started \<noteq> None" "timers started = [(1, closure_of started)]"
    by (simp_all add: closure_of_def started_def)
  have n: "nextNoteTimeRef started = 11 / 20" by (simp add: started_def)
  from fixed_tempo_onsets_arithmetic[OF h, of started 3 1 "[1 / 2]"]
  show ?thesis
    using h a run_tick_started by (simp add: n upt_rec)
qed

text \<open>
  From the initial state (120 BPM, the pattern of the claim), the play button and 80
  ticks of 25 ms leave five notes in the queue.
\<close>
theorem two_seconds_at_120_counterexample:
  "map_option (\<lambda>s. map beatIndex (notesQueue s))
       (run (ClickPlay # ticks (replicate 80 (1 / 40))) initial)
     = Some [Idx 0, Idx 1, Idx 2, Idx 3, Idx 0]
   \<and> map_option (\<lambda>s. length (notesQueue s))
       (run (ClickPlay # ticks (replicate 80 (1 / 40))) initial) = Some 5"
proof -
  have "\<not> isPlaying initial" "bpm initial = 120"
    "beatPatternRef initial = [Accent, Normal, Normal, Normal]" "timers initial = []"
    by (simp_all add: initial_def)
  from start_120_two_seconds[OF this] show ?thesis
    by (auto simp: initial_def)
qed

text \<open>
  C3 (as amended). Started at 120 BPM with the pattern \<open>[Accent, Normal, Normal, Normal]\<close>
  and ticked every 25 ms for 2 seconds of audio-clock time, the scheduler has emitted
  exactly five notes: the indices 0, 1, 2, 3 at \<open>t0\<close>, \<open>t0 + 0.5\<close>, \<open>t0 + 1.0\<close>,
  \<open>t0 + 1.5\<close> and, ahead of its onset, the index 0 at \<open>t0 + 2.0\<close>, where \<open>t0\<close> is the
  clock at the start plus 0.05. The notes are read off the queue, which no animation
  frame drains in this run.
\<close>
theorem two_seconds_at_120_schedule_five_notes:
  assumes "\<not> isPlaying s" and "bpm s = 120"
    and "beatPatternRef s = [Accent, Normal, Normal, Normal]" and "timers s = []"
  shows "\<exists>s'. run (ClickPlay # ticks (replicate 80 (1 / 40))) s = Some s'
     \<and> clockNow s' = clockNow s + 2
     \<and> notesQueue s' = notesQueue s @
         [\<lparr> time = clockNow s + 1 / 20, beatIndex = Idx 0 \<rparr>,
          \<lparr> time = clockNow s + 1 / 20 + 1 / 2, beatIndex = Idx 1 \<rparr>,
          \<lparr> time = clockNow s + 1 / 20 + 1, beatIndex = Idx 2 \<rparr>,
          \<lparr> time = clockNow s + 1 / 20 + 3 / 2, beatIndex = Idx 3 \<rparr>,
          \<lparr> time = clockNow s + 1 / 20 + 2, beatIndex = Idx 0 \<rparr>]"
  using assms by (rule start_120_two_seconds)

theorem two_seconds_at_120_schedule_five_notes_witness:
  "\<not> isPlaying initial \<and> bpm initial = 120
   \<and> beatPatternRef initial = [Accent, Normal, Normal, Normal] \<and> timers initial = []
   \<and> map_option notesQueue (run (ClickPlay # ticks (replicate 80 (1 / 40))) initial)
      = Some [\<lparr> time = 1 / 20, beatIndex = Idx 0 \<rparr>, \<lparr> time = 11 / 20, beatIndex = Idx 1 \<rparr>,
              \<lparr> time = 21 / 20, beatIndex = Idx 2 \<rparr>, \<lparr> time = 31 / 20, beatIndex = Idx 3 \<rparr>,
              \<lparr> time = 41 / 20, beatIndex = Idx 0 \<rparr>]"
proof -
  have h: "\<not> isPlaying initial" "bpm initial = 120"
    "beatPatternRef initial = [Accent, Normal, Normal, Normal]" "timers initial = []"
    by (simp_all add: initial_def)
  have c: "clockNow initial = 0" "notesQueue initial = []"
    by (simp_all add: initial_def clockNow_def)
  from two_seconds_at_120_schedule_five_notes[OF h] show ?thesis
    using h by (auto simp: c)
qed

text \<open>
  Right after the start at 120 BPM the cursor is 0.55 s ahead of the clock, more than
  \<open>scheduleAheadTime\<close> plus \<open>lookahead\<close> milliseconds, which is 0.125 s.
\<close>
theorem cursor_gap_exceeds_window_counterexample:
  "map_option (\<lambda>s. nextNoteTimeRef s - clockNow s) (run [ClickPlay] initial) = Some (11 / 20)
   \<and> \<not> (11 / 20 \<le> scheduleAheadTime + lookahead / 1000)"
  unfolding run_start
  by (simp add: started_def clockNow_def scheduleAheadTime_def lookahead_def)

text \<open>
  C4 (as amended). In every state the component reaches from its initial state (slider
  values as the range widget delivers them, the clock never running backwards), every
  onset waiting in the queue is less than the schedule-ahead window ahead of the audio
  clock, and during playback the cursor's \<open>nextNoteTimeRef\<close> is less than the
  schedule-ahead window plus one beat period \<open>60 / bpm\<close> ahead of it.
\<close>
theorem cursor_gap_within_window_plus_beat:
  assumes "list_all valid_event es"
  shows "\<exists>s. run es initial = Some s \<and> 30 \<le> bpm s \<and> bpm s \<le> 300
     \<and> list_all (\<lambda>n. time n - clockNow s < scheduleAheadTime) (notesQueue s)
     \<and> (isPlaying s \<longrightarrow> nextNoteTimeRef s - clockNow s < scheduleAheadTime + 60 / bpm s)"
proof -
  from run_inv[OF initial_inv assms] obtain s where s: "run es initial = Some s" "sched_inv s"
    by blast
  have "list_all (\<lambda>n. time n - clockNow s < scheduleAheadTime) (notesQueue s)"
    using s(2) by (simp add: sched_inv_def queue_ok_def list_all_iff algebra_simps)
  moreover have "isPlaying s \<longrightarrow> nextNoteTimeRef s - clockNow s < scheduleAheadTime + 60 / bpm s"
    using s(2) by (auto simp: sched_inv_def cursor_ok_def)
  ultimately show ?thesis using s by (auto simp: sched_inv_def)
qed

theorem cursor_gap_within_window_plus_beat_witness:
  "list_all valid_event [ClickPlay, ClockAdvance (1 / 2), TimerFire]
   \<and> map_option isPlaying (run [ClickPlay, ClockAdvance (1 / 2), TimerFire] initial) = Some True
   \<and> map_option (\<lambda>s. nextNoteTimeRef s - clockNow s)
        (run [ClickPlay, ClockAdvance (1 / 2), TimerFire] initial) = Some (11 / 20)
   \<and> map_option (\<lambda>s. scheduleAheadTime + 60 / bpm s)
        (run [ClickPlay, ClockAdvance (1 / 2), TimerFire] initial) = Some (3 / 5)"
proof -
  have v: "list_all valid_event [ClickPlay, ClockAdvance (1 / 2), TimerFire]"
    by (simp add: valid_event_def)
  from cursor_gap_within_window_plus_beat[OF v] show ?thesis
    using v unfolding run_ticked
    by (simp add: ticked_def clockNow_def scheduleAheadTime_def)
qed

text \<open>
  C5. With the cursor index at or beyond the length of a non-empty pattern, the note is
  only recorded for the visualizer (no oscillator, the slot is not read), and the advance
  that follows wraps the index modulo the length, so the next index is in bounds.
\<close>
theorem out_of_bounds_beat_skipped_then_wrapped:
  assumes "currentBeatIndexRef s = Idx i"
    and "length (beatPatternRef s) \<le> i"
    and "beatPatternRef s \<noteq> []"
  shows "scheduleNote c t (Idx i) s
           = s\<lparr> notesQueue := notesQueue s @ [\<lparr> time = t, beatIndex = Idx i \<rparr>] \<rparr>
         \<and> audioContextRef (loop_body c s) = audioContextRef s
         \<and> currentBeatIndexRef (loop_body c s) = Idx (Suc i mod length (beatPatternRef s))
         \<and> Suc i mod length (beatPatternRef s) < length (beatPatternRef (loop_body c s))
         \<and> \<not> index_ge (currentBeatIndexRef (loop_body c s)) (length (beatPatternRef (loop_body c s)))"
proof -
  have skip: "scheduleNote c t (Idx i) s
           = s\<lparr> notesQueue := notesQueue s @ [\<lparr> time = t, beatIndex = Idx i \<rparr>] \<rparr>" for t
    using assms(2) by (simp add: scheduleNote_def Let_def split: option.splits)
  have L: "0 < length (beatPatternRef s)" using assms(3) by simp
  have "audioContextRef (loop_body c s) = audioContextRef s"
    using assms(1) by (simp add: loop_body_def nextNote_def skip)
  moreover have "currentBeatIndexRef (loop_body c s) = Idx (Suc i mod length (beatPatternRef s))"
    using assms(1) L by (simp add: loop_body_cursor advance_index_def)
  moreover have "Suc i mod length (beatPatternRef s) < length (beatPatternRef (loop_body c s))"
    using L by (simp add: loop_body_frame)
  ultimately show ?thesis using skip by (simp add: loop_body_frame)
qed

theorem out_of_bounds_beat_skipped_then_wrapped_witness:
  "currentBeatIndexRef shrunk = Idx 3 \<and> length (beatPatternRef shrunk) \<le> 3
   \<and> beatPatternRef shrunk \<noteq> []
   \<and> audioContextRef (loop_body (closure_of shrunk) shrunk) = audioContextRef shrunk
   \<and> currentBeatIndexRef (loop_body (closure_of shrunk) shrunk) = Idx 0"
proof -
  have L: "length (beatPatternRef shrunk) = 2" by (simp add: shrunk_def)
  have h1: "currentBeatIndexRef shrunk = Idx 3" by (simp add: shrunk_def)
  have h2: "length (beatPatternRef shrunk) \<le> 3" by (simp add: L)
  have h3: "beatPatternRef shrunk \<noteq> []" by (simp add: shrunk_def)
  from out_of_bounds_beat_skipped_then_wrapped[OF h1 h2 h3, of "closure_of shrunk" 0]
  show ?thesis using h1 h2 h3 by (simp add: L)
qed

text \<open>
  C6. From any state that retains at most four taps (the initial state retains none),
  four taps 500 ms apart leave exactly these four taps in the window and set the tempo
  to 120. Every tap keeps the window at four entries at most and, with two taps or more
  in the window, sets the tempo to \<open>round (60000 / mean)\<close> of the window's intervals when
  that lies in [30, 300]; a tap more than 2000 ms after the previous one leaves only
  itself in the window and the tempo as it was, and the estimate of the tap after it is
  computed from these two taps alone.
\<close>
theorem tap_tempo_window_and_estimate:
  assumes "length (tapTimesRef s) \<le> 4"
  shows "(\<exists>s'. run [Tap t, Tap (t + 500), Tap (t + 1000), Tap (t + 1500)] s = Some s'
            \<and> tapTimesRef s' = [t, t + 500, t + 1000, t + 1500] \<and> bpm s' = 120)
       \<and> (\<exists>s'. handleTap now s = Some s' \<and> length (tapTimesRef s') \<le> 4
            \<and> bpm s' = (if 1 < length (tapTimesRef s') \<and> 30 \<le> tapEstimate (tapTimesRef s')
                              \<and> tapEstimate (tapTimesRef s') \<le> 300
                          then real_of_int (tapEstimate (tapTimesRef s')) else bpm s)
            \<and> (now - lastTapRef s > 2000 \<longrightarrow>
                 tapTimesRef s' = [now] \<and> bpm s' = bpm s
                 \<and> (\<forall>d. 0 < d \<and> d \<le> 2000 \<longrightarrow>
                      (\<exists>s''. handleTap (now + d) s' = Some s''
                         \<and> tapTimesRef s'' = [now, now + d]
                         \<and> bpm s'' = (if 30 \<le> round (60000 / d) \<and> round (60000 / d) \<le> 300
                                       then real_of_int (round (60000 / d)) else bpm s)))))"
proof (rule conjI)
  from handleTap_rule[of t s] obtain s1 where s1:
    "handleTap t s = Some s1" "tapTimesRef s1 = tapWindow t s" "lastTapRef s1 = t" by blast
  from handleTap_rule[of "t + 500" s1] obtain s2 where s2:
    "handleTap (t + 500) s1 = Some s2" "tapTimesRef s2 = tapWindow (t + 500) s1"
    "lastTapRef s2 = t + 500" by blast
  from handleTap_rule[of "t + 1000" s2] obtain s3 where s3:
    "handleTap (t + 1000) s2 = Some s3" "tapTimesRef s3 = tapWindow (t + 1000) s2"
    "lastTapRef s3 = t + 1000" by blast
  from tapWindow_snoc[OF assms, of t] obtain xs where xs:
    "tapWindow t s = xs @ [t]" "length xs \<le> 3" by blast
  have W: "tapWindow (t + 1500) s3 = [t, t + 500, t + 1000, t + 1500]"
    using four_taps_window[OF _ xs(2) s1(3) s2(2,3) s3(2,3)] s1(2) xs(1) by simp
  from handleTap_rule[of "t + 1500" s3] obtain s4 where s4:
    "handleTap (t + 1500) s3 = Some s4" "tapTimesRef s4 = [t, t + 500, t + 1000, t + 1500]"
    "bpm s4 = 120"
    unfolding W by (auto simp: tapEstimate_500)
  have "run [Tap t, Tap (t + 500), Tap (t + 1000), Tap (t + 1500)] s = Some s4"
    using s1(1) s2(1) s3(1) s4(1) by simp
  then show "\<exists>s'. run [Tap t, Tap (t + 500), Tap (t + 1000), Tap (t + 1500)] s = Some s'
            \<and> tapTimesRef s' = [t, t + 500, t + 1000, t + 1500] \<and> bpm s' = 120"
    using s4(2,3) by blast
next
  from handleTap_rule[of now s] obtain s' where s':
    "handleTap now s = Some s'" "tapTimesRef s' = tapWindow now s" "lastTapRef s' = now"
    "bpm s' = (if 1 < length (tapWindow now s) \<and> tapMean (tapWindow now s) \<noteq> 0
                    \<and> 30 \<le> tapEstimate (tapWindow now s) \<and> tapEstimate (tapWindow now s) \<le> 300
                 then real_of_int (tapEstimate (tapWindow now s)) else bpm s)"
    by blast
  have len: "length (tapTimesRef s') \<le> 4"
    using s'(2) tapWindow_length[OF assms] by simp
  have reset: "tapTimesRef s' = [now] \<and> bpm s' = bpm s
       \<and> (\<forall>d. 0 < d \<and> d \<le> 2000 \<longrightarrow>
            (\<exists>s''. handleTap (now + d) s' = Some s'' \<and> tapTimesRef s'' = [now, now + d]
               \<and> bpm s'' = (if 30 \<le> round (60000 / d) \<and> round (60000 / d) \<le> 300
                             then real_of_int (round (60000 / d)) else bpm s)))"
    if gap: "now - lastTapRef s > 2000"
  proof (intro conjI allI impI)
    show w1: "tapTimesRef s' = [now]" using s'(2) gap by (simp add: tapWindow_def)
    show b1: "bpm s' = bpm s" using s'(4) gap by (simp add: tapWindow_def)
    fix d :: real
    assume d: "0 < d \<and> d \<le> 2000"
    have W2: "tapWindow (now + d) s' = [now, now + d]"
      using d w1 s'(3) by (simp add: tapWindow_def)
    have m: "tapMean [now, now + d] = d" "tapEstimate [now, now + d] = round (60000 / d)"
      by (simp_all add: tapMean_def tapEstimate_def tapIntervals_def)
    from handleTap_rule[of "now + d" s'] show
      "\<exists>s''. handleTap (now + d) s' = Some s'' \<and> tapTimesRef s'' = [now, now + d]
          \<and> bpm s'' = (if 30 \<le> round (60000 / d) \<and> round (60000 / d) \<le> 300
                        then real_of_int (round (60000 / d)) else bpm s)"
      unfolding W2 using d b1 by (auto simp: m)
  qed
  have "tapMean (tapWindow now s) = 0 \<Longrightarrow> tapEstimate (tapWindow now s) = 0"
    by (simp add: tapEstimate_def)
  then have est: "bpm s' = (if 1 < length (tapTimesRef s') \<and> 30 \<le> tapEstimate (tapTimesRef s')
                              \<and> tapEstimate (tapTimesRef s') \<le> 300
                          then real_of_int (tapEstimate (tapTimesRef s')) else bpm s)"
    unfolding s'(2) s'(4) by auto
  show "\<exists>s'. handleTap now s = Some s' \<and> length (tapTimesRef s') \<le> 4
            \<and> bpm s' = (if 1 < length (tapTimesRef s') \<and> 30 \<le> tapEstimate (tapTimesRef s')
                              \<and> tapEstimate (tapTimesRef s') \<le> 300
                          then real_of_int (tapEstimate (tapTimesRef s')) else bpm s)
            \<and> (now - lastTapRef s > 2000 \<longrightarrow>
                 tapTimesRef s' = [now] \<and> bpm s' = bpm s
                 \<and> (\<forall>d. 0 < d \<and> d \<le> 2000 \<longrightarrow>
                      (\<exists>s''. handleTap (now + d) s' = Some s''
                         \<and> tapTimesRef s'' = [now, now + d]
                         \<and> bpm s'' = (if 30 \<le> round (60000 / d) \<and> round (60000 / d) \<le> 300
                                       then real_of_int (round (60000 / d)) else bpm s))))"
    using s'(1) len est reset by blast
qed

theorem tap_tempo_window_and_estimate_witness:
  "length (tapTimesRef initial) \<le> 4
   \<and> map_option bpm (run [Tap 7000, Tap (7000 + 500), Tap (7000 + 1000), Tap (7000 + 1500)] initial)
       = Some 120
   \<and> 5000 - lastTapRef initial > 2000
   \<and> map_option tapTimesRef (handleTap 5000 initial) = Some [5000]
   \<and> map_option tapTimesRef (handleTap (5000 + 400) tapped) = Some [5000, 5000 + 400]
   \<and> map_option bpm (handleTap (5000 + 400) tapped) = Some 150"
proof -
  have h: "length (tapTimesRef initial) \<le> 4" by (simp add: initial_def)
  have g: "5000 - lastTapRef initial > 2000" by (simp add: initial_def)
  have r: "round (60000 / (400::real)) = 150" by simp
  note th = tap_tempo_window_and_estimate[OF h, of 7000 5000]
  from th obtain s4 where s4:
    "run [Tap 7000, Tap (7000 + 500), Tap (7000 + 1000), Tap (7000 + 1500)] initial = Some s4"
    "bpm s4 = 120" by blast
  from th g handleTap_initial have d:
    "\<forall>d. 0 < d \<and> d \<le> 2000 \<longrightarrow>
       (\<exists>s''. handleTap (5000 + d) tapped = Some s'' \<and> tapTimesRef s'' = [5000, 5000 + d]
          \<and> bpm s'' = (if 30 \<le> round (60000 / d) \<and> round (60000 / d) \<le> 300
                        then real_of_int (round (60000 / d)) else bpm initial))"
    by auto
  have "(0::real) < 400 \<and> (400::real) \<le> 2000" by simp
  with d obtain s2 where s2:
    "handleTap (5000 + 400) tapped = Some s2" "tapTimesRef s2 = [5000, 5000 + 400]"
    "bpm s2 = (if 30 \<le> round (60000 / (400::real)) \<and> round (60000 / (400::real)) \<le> 300
               then real_of_int (round (60000 / (400::real))) else bpm initial)"
    by blast
  have "bpm s2 = 150" using s2(3) r by simp
  then show ?thesis
    using h g s4 s2(1,2) by (simp add: handleTap_initial tapped_def)
qed

text \<open>
  The slider's \<open>onChange\<close> handler is \<open>setBpm(Number(e.target.value))\<close>: given 500 it
  sets the tempo to 500.
\<close>
theorem slider_sets_tempo_unchecked_counterexample:
  "map_option bpm (step (SliderChange 500) initial) = Some 500 \<and> \<not> (500 :: real) \<le> 300"
  by (simp add: setBpm_def audioEffect_def audioCleanup_def clearTimer_def initial_def)

text \<open>
  C7 (as amended). A tap keeps the tempo within [30, 300]: an estimate outside that
  range leaves the tempo unchanged, it is not clamped. The slider handler stores the
  value it is given unchecked, so its bound is the one of the range widget that
  delivers the value; with values that widget can deliver, the tempo is within
  [30, 300] in every state the component reaches.
\<close>
theorem tempo_bounds_enforced_by_tap_only:
  "(30 \<le> bpm s \<and> bpm s \<le> 300 \<longrightarrow>
      (\<exists>s'. handleTap now s = Some s' \<and> 30 \<le> bpm s' \<and> bpm s' \<le> 300
         \<and> tapTimesRef s' = tapWindow now s
         \<and> (\<not> (30 \<le> tapEstimate (tapTimesRef s') \<and> tapEstimate (tapTimesRef s') \<le> 300)
              \<longrightarrow> bpm s' = bpm s)))
   \<and> (0 < v \<longrightarrow> (\<exists>s'. step (SliderChange v) s = Some s' \<and> bpm s' = v))
   \<and> (list_all valid_event es \<longrightarrow>
        (\<exists>s'. run es initial = Some s' \<and> 30 \<le> bpm s' \<and> bpm s' \<le> 300))"
proof (intro conjI impI)
  assume b: "30 \<le> bpm s \<and> bpm s \<le> 300"
  from handleTap_rule[of now s] obtain s' where s':
    "handleTap now s = Some s'" "tapTimesRef s' = tapWindow now s"
    "bpm s' = (if 1 < length (tapWindow now s) \<and> tapMean (tapWindow now s) \<noteq> 0
                    \<and> 30 \<le> tapEstimate (tapWindow now s) \<and> tapEstimate (tapWindow now s) \<le> 300
                 then real_of_int (tapEstimate (tapWindow now s)) else bpm s)"
    by blast
  have "30 \<le> bpm s' \<and> bpm s' \<le> 300"
    using b s'(3) by (auto split: if_splits)
  moreover have "\<not> (30 \<le> tapEstimate (tapTimesRef s') \<and> tapEstimate (tapTimesRef s') \<le> 300)
              \<longrightarrow> bpm s' = bpm s"
    using s'(2,3) by auto
  ultimately show "\<exists>s'. handleTap now s = Some s' \<and> 30 \<le> bpm s' \<and> bpm s' \<le> 300
         \<and> tapTimesRef s' = tapWindow now s
         \<and> (\<not> (30 \<le> tapEstimate (tapTimesRef s') \<and> tapEstimate (tapTimesRef s') \<le> 300)
              \<longrightarrow> bpm s' = bpm s)"
    using s'(1,2) by blast
next
  assume "0 < v"
  from setBpm_rule[OF this, of s] show "\<exists>s'. step (SliderChange v) s = Some s' \<and> bpm s' = v"
    by auto
next
  assume "list_all valid_event es"
  from run_inv[OF initial_inv this]
  show "\<exists>s'. run es initial = Some s' \<and> 30 \<le> bpm s' \<and> bpm s' \<le> 300"
    by (auto simp: sched_inv_def)
qed

theorem tempo_bounds_enforced_by_tap_only_witness:
  "30 \<le> bpm tapped \<and> bpm tapped \<le> 300
   \<and> map_option tapTimesRef (handleTap 5100 tapped) = Some [5000, 5100]
   \<and> tapEstimate [5000, 5100] = 600
   \<and> map_option bpm (handleTap 5100 tapped) = Some 120
   \<and> (0 :: real) < 200
   \<and> map_option bpm (step (SliderChange 200) tapped) = Some 200
   \<and> list_all valid_event [SliderChange 200, Tap 5000, Tap 5100]
   \<and> map_option bpm (run [SliderChange 200, Tap 5000, Tap 5100] initial) = Some 200"
proof -
  have b: "30 \<le> bpm tapped \<and> bpm tapped \<le> 300" by (simp add: tapped_def initial_def)
  have w: "tapWindow 5100 tapped = [5000, 5100]"
    by (simp add: tapWindow_def tapped_def initial_def)
  have e: "tapEstimate [5000, 5100] = 600"
    by (simp add: tapEstimate_def tapMean_def tapIntervals_def)
  have v: "(0 :: real) < 200" by simp
  have l: "list_all valid_event [SliderChange 200, Tap 5000, Tap 5100]"
    by (simp add: valid_event_def)
  note th = tempo_bounds_enforced_by_tap_only
    [of tapped 5100 200 "[SliderChange 200, Tap 5000, Tap 5100]"]
  from th b obtain s1 where s1: "handleTap 5100 tapped = Some s1"
    "tapTimesRef s1 = tapWindow 5100 tapped"
    "\<not> (30 \<le> tapEstimate (tapTimesRef s1) \<and> tapEstimate (tapTimesRef s1) \<le> 300)
       \<longrightarrow> bpm s1 = bpm tapped"
    by blast
  have "bpm tapped = 120" by (simp add: tapped_def initial_def)
  then have "bpm s1 = 120" using s1(2,3) unfolding w by (simp add: e)
  moreover from th v obtain s2 where "step (SliderChange 200) tapped = Some s2" "bpm s2 = 200"
    by blast
  ultimately show ?thesis
    using b e v l s1(1,2) run_slider_taps by (simp add: w)
qed

text \<open>
  C8. A note whose slot reads \<open>Mute\<close> is recorded in the visual queue and nothing else
  changes: no oscillator is created.
\<close>
theorem mute_slot_queued_without_synthesis:
  assumes "js_nth (beatPatternRef s) bi = Some Mute"
  shows "scheduleNote c t bi s = s\<lparr> notesQueue := notesQueue s @ [\<lparr> time = t, beatIndex = bi \<rparr>] \<rparr>
         \<and> audioContextRef (scheduleNote c t bi s) = audioContextRef s"
  using assms by (simp add: scheduleNote_def Let_def split: option.splits)

theorem mute_slot_queued_without_synthesis_witness:
  "js_nth (beatPatternRef (handleBeatClick 1 (handleBeatClick 1 started))) (Idx 1) = Some Mute
   \<and> notesQueue (scheduleNote (closure_of started) (11 / 20) (Idx 1)
        (handleBeatClick 1 (handleBeatClick 1 started)))
       = [\<lparr> time = 1 / 20, beatIndex = Idx 0 \<rparr>, \<lparr> time = 11 / 20, beatIndex = Idx 1 \<rparr>]
   \<and> audioContextRef (scheduleNote (closure_of started) (11 / 20) (Idx 1)
        (handleBeatClick 1 (handleBeatClick 1 started))) = audioContextRef started"
  using mute_slot_queued_without_synthesis
    [of "handleBeatClick 1 (handleBeatClick 1 started)" "Idx 1" "closure_of started" "11 / 20"]
  by (simp add: started_def handleBeatClick_def setBeatPattern_def Let_def)

text \<open>
  C9. With a pattern of fixed length \<open>L\<close> and the cursor in bounds (as it is in every
  state the component reaches, \<open>reachable_bounds\<close>), the beat indices of consecutively
  scheduled notes are periodic with period \<open>L\<close>.
\<close>
theorem beat_index_sequence_periodic:
  assumes "currentBeatIndexRef s = Idx i0"
    and "i0 < length (beatPatternRef s)"
    and "i + length (beatPatternRef s) < n"
  shows "map beatIndex (drop (length (notesQueue s)) (notesQueue ((loop_body c ^^ n) s))) ! i
       = map beatIndex (drop (length (notesQueue s)) (notesQueue ((loop_body c ^^ n) s)))
           ! (i + length (beatPatternRef s))
       \<and> map beatIndex (drop (length (notesQueue s)) (notesQueue ((loop_body c ^^ n) s))) ! i
           = Idx ((i0 + i) mod length (beatPatternRef s))"
proof -
  let ?L = "length (beatPatternRef s)"
  have L: "0 < ?L" using assms(2) by (cases "beatPatternRef s") simp_all
  have "notesQueue ((loop_body c ^^ n) s) = notesQueue s @
       emitted (nextNoteTimeRef s) (secondsPerBeat c) ?L (Idx i0) n"
    using ran_funpow[of c s n] assms(1) by (simp add: ran_def same_controls_def)
  then have idxs: "map beatIndex (drop (length (notesQueue s)) (notesQueue ((loop_body c ^^ n) s)))
      = map (\<lambda>k. Idx ((i0 + k) mod ?L)) [0..<n]"
    using advance_index_funpow[OF L assms(2)] by (simp add: emitted_def)
  have "(i0 + (i + ?L)) mod ?L = (i0 + i) mod ?L"
    by (metis add.assoc mod_add_self2)
  then show ?thesis
    unfolding idxs using assms(3) by simp
qed

theorem beat_index_sequence_periodic_witness:
  "currentBeatIndexRef started = Idx 1 \<and> 1 < length (beatPatternRef started)
   \<and> 2 + length (beatPatternRef started) < 7
   \<and> map beatIndex (drop (length (notesQueue started))
         (notesQueue ((loop_body (closure_of started) ^^ 7) started))) ! 2 = Idx 3
   \<and> map beatIndex (drop (length (notesQueue started))
         (notesQueue ((loop_body (closure_of started) ^^ 7) started))) ! 6 = Idx 3"
proof -
  have L: "length (beatPatternRef started) = 4" by (simp add: started_def)
  have h1: "currentBeatIndexRef started = Idx 1" by (simp add: started_def)
  have h2: "1 < length (beatPatternRef started)" by (simp add: L)
  have h3: "2 + length (beatPatternRef started) < 7" by (simp add: L)
  from beat_index_sequence_periodic[OF h1 h2 h3, of "closure_of started"]
  show ?thesis using h1 h2 h3 by (auto simp: L)
qed

text \<open>
  C10. Every call of \<open>scheduleNote\<close> appends exactly one record to the visual queue,
  before and whatever the mute, audio-context and bounds checks decide; once the clock
  has passed the queued onsets, the next animation frame consumes the queue and the
  highlight is the beat index of the note just recorded.
\<close>
theorem scheduleNote_always_feeds_visual_queue:
  "notesQueue (scheduleNote c t bi s) = notesQueue s @ [\<lparr> time = t, beatIndex = bi \<rparr>]
   \<and> (rafPending s \<and> audioContextRef s \<noteq> None \<and> t < clockNow s + dt
        \<and> (\<forall>n\<in>set (notesQueue s). time n < clockNow s + dt)
      \<longrightarrow> activeBeatIndex (draw (clockAdvance dt (scheduleNote c t bi s))) = Some bi
          \<and> notesQueue (draw (clockAdvance dt (scheduleNote c t bi s))) = [])"
proof (rule conjI, (rule scheduleNote_queue), rule impI)
  have q: "notesQueue (scheduleNote c t bi s) = notesQueue s @ [\<lparr> time = t, beatIndex = bi \<rparr>]"
    by (rule scheduleNote_queue)
  assume a: "rafPending s \<and> audioContextRef s \<noteq> None \<and> t < clockNow s + dt
        \<and> (\<forall>n\<in>set (notesQueue s). time n < clockNow s + dt)"
  let ?s1 = "scheduleNote c t bi s"
  let ?s2 = "clockAdvance dt ?s1"
  have ctx1: "audioContextRef ?s1 \<noteq> None" using a by (simp add: scheduleNote_clock)
  then obtain ctx2 where ctx2: "audioContextRef ?s2 = Some ctx2"
    by (auto simp: clockAdvance_def split: option.splits)
  have "clockNow ?s2 = currentTime ctx2" using ctx2 by (simp add: clockNow_def)
  then have clk: "currentTime ctx2 = clockNow s + dt"
    using clockAdvance_clock[OF ctx1, of dt] by (simp add: scheduleNote_clock)
  have q2: "notesQueue ?s2 = notesQueue s @ [\<lparr> time = t, beatIndex = bi \<rparr>]"
    using q by (simp add: clockAdvance_def split: option.splits)
  have raf: "rafPending ?s2"
    using a by (simp add: clockAdvance_def scheduleNote_frame split: option.splits)
  have "drain (currentTime ctx2) (notesQueue ?s2) (activeBeatIndex ?s2) = ([], Some bi)"
    using drain_all[of "notesQueue ?s2" "currentTime ctx2" "activeBeatIndex ?s2"] a
    by (simp add: q2 clk)
  then show "activeBeatIndex (draw ?s2) = Some bi \<and> notesQueue (draw ?s2) = []"
    using raf ctx2 by (simp add: draw_def)
qed

theorem scheduleNote_always_feeds_visual_queue_witness:
  "notesQueue (scheduleNote \<lparr> c_bpm = 120, c_isMuted = True \<rparr> (11 / 20) (Idx 9) started)
     = [\<lparr> time = 1 / 20, beatIndex = Idx 0 \<rparr>, \<lparr> time = 11 / 20, beatIndex = Idx 9 \<rparr>]
   \<and> rafPending started \<and> audioContextRef started \<noteq> None \<and> 11 / 20 < clockNow started + 1
   \<and> activeBeatIndex (draw (clockAdvance 1
        (scheduleNote \<lparr> c_bpm = 120, c_isMuted = True \<rparr> (11 / 20) (Idx 9) started))) = Some (Idx 9)"
  using scheduleNote_always_feeds_visual_queue
    [of "\<lparr> c_bpm = 120, c_isMuted = True \<rparr>" "11 / 20" "Idx 9" started 1]
  by (simp add: started_def clockNow_def)

end
